theory Spec2Isabelle
  imports Complex_Main
begin

section \<open>Sparse triplet matrices of HiOp on RAJA\<close>

text \<open>
  The theory embeds \<^verbatim>\<open>hiopMatrixRajaSparseTriplet\<close> and
  \<^verbatim>\<open>hiopMatrixRajaSymSparseTriplet\<close>. Conventions of the embedding:
  \<^item> \<^verbatim>\<open>double\<close> is \<^typ>\<open>real\<close>: rounding, NaN and infinities are outside the model;
  \<^item> \<^verbatim>\<open>int\<close> is \<^typ>\<open>int\<close> without wrap-around (no index computation of the code
    comes near the 32-bit range for arrays that fit in memory);
  \<^item> an assertion that fails, and an access outside an allocation (undefined behaviour
    in C++), end the call with an error value; so does a division by zero, whose IEEE
    result is no real number;
  \<^item> a \<^verbatim>\<open>RAJA::forall\<close> runs its body for the indices of the range in increasing
    order. The bodies touch shared cells only through atomic additions, which commute
    over \<^typ>\<open>real\<close>, or touch cells of their own.
\<close>

subsection \<open>Errors, build configuration, memory accesses\<close>

datatype error = AssertionFailed | OutOfBounds | UnknownAllocator | NonFinite

record build_config =
  use_gpu :: bool     \<comment> \<open>\<^verbatim>\<open>HIOP_USE_GPU\<close> is defined\<close>
  ndebug :: bool      \<comment> \<open>\<^verbatim>\<open>NDEBUG\<close> is defined: \<^verbatim>\<open>assert\<close> expands to nothing\<close>
  deepchecks :: bool  \<comment> \<open>\<^verbatim>\<open>HIOP_DEEPCHECKS\<close> is defined\<close>

definition bindE :: "error + 'a \<Rightarrow> ('a \<Rightarrow> error + 'b) \<Rightarrow> error + 'b" where
  "bindE r f = (case r of Inl e \<Rightarrow> Inl e | Inr v \<Rightarrow> f v)"

definition c_assert :: "build_config \<Rightarrow> bool \<Rightarrow> error + unit" where
  "c_assert cfg b = (if ndebug cfg \<or> b then Inr () else Inl AssertionFailed)"

definition rd :: "'a list \<Rightarrow> int \<Rightarrow> error + 'a" where
  "rd xs i = (if 0 \<le> i \<and> i < int (length xs) then Inr (xs ! nat i) else Inl OutOfBounds)"

definition wr :: "'a list \<Rightarrow> int \<Rightarrow> 'a \<Rightarrow> error + 'a list" where
  "wr xs i v = (if 0 \<le> i \<and> i < int (length xs) then Inr (xs[nat i := v]) else Inl OutOfBounds)"

primrec seq_for :: "(nat \<Rightarrow> 's \<Rightarrow> error + 's) \<Rightarrow> nat list \<Rightarrow> 's \<Rightarrow> error + 's" where
  "seq_for f [] s = Inr s"
| "seq_for f (i # is) s = bindE (f i s) (seq_for f is)"

definition RAJA_forall :: "int \<Rightarrow> (nat \<Rightarrow> 's \<Rightarrow> error + 's) \<Rightarrow> 's \<Rightarrow> error + 's" where
  \<comment> \<open>\<^verbatim>\<open>RAJA::forall(RAJA::RangeSegment(0, n), body)\<close>\<close>
  "RAJA_forall n f s = seq_for f [0..<nat n] s"

subsection \<open>Umpire memory: allocations by address\<close>

text \<open>
  A pointer is the address of an allocation. The heap gives the contents of the
  \<^verbatim>\<open>int\<close> and of the \<^verbatim>\<open>double\<close> allocation at each address and the memory space it
  was taken from. Fresh memory is not initialised: an allocation is found with the
  contents \<open>fresh_int\<close>, \<open>fresh_real\<close>, about which the code may assume nothing.
\<close>

record heap =
  ibuf :: "nat \<Rightarrow> int list"
  dbuf :: "nat \<Rightarrow> real list"
  space_of :: "nat \<Rightarrow> string"
  brk :: nat
  allocators :: "string list"
  fresh_int :: "nat \<Rightarrow> int"
  fresh_real :: "nat \<Rightarrow> real"

definition getAllocator :: "heap \<Rightarrow> string \<Rightarrow> error + string" where
  "getAllocator h name = (if name \<in> set (allocators h) then Inr name else Inl UnknownAllocator)"

definition allocate_int :: "heap \<Rightarrow> string \<Rightarrow> int \<Rightarrow> nat \<times> heap" where
  "allocate_int h sp n =
     (brk h, h\<lparr>ibuf := (ibuf h)(brk h := map (fresh_int h) [0..<nat n]),
               space_of := (space_of h)(brk h := sp),
               brk := Suc (brk h)\<rparr>)"

definition allocate_real :: "heap \<Rightarrow> string \<Rightarrow> int \<Rightarrow> nat \<times> heap" where
  "allocate_real h sp n =
     (brk h, h\<lparr>dbuf := (dbuf h)(brk h := map (fresh_real h) [0..<nat n]),
               space_of := (space_of h)(brk h := sp),
               brk := Suc (brk h)\<rparr>)"

definition copy_int :: "heap \<Rightarrow> nat \<Rightarrow> nat \<Rightarrow> error + heap" where
  \<comment> \<open>\<^verbatim>\<open>resmgr.copy(dst, src)\<close>: the whole source allocation, which must fit\<close>
  "copy_int h dst src =
     (if length (ibuf h src) \<le> length (ibuf h dst)
      then Inr (h\<lparr>ibuf := (ibuf h)(dst := ibuf h src @ drop (length (ibuf h src)) (ibuf h dst))\<rparr>)
      else Inl OutOfBounds)"

definition copy_real :: "heap \<Rightarrow> nat \<Rightarrow> nat \<Rightarrow> error + heap" where
  "copy_real h dst src =
     (if length (dbuf h src) \<le> length (dbuf h dst)
      then Inr (h\<lparr>dbuf := (dbuf h)(dst := dbuf h src @ drop (length (dbuf h src)) (dbuf h dst))\<rparr>)
      else Inl OutOfBounds)"

subsection \<open>The matrix object\<close>

text \<open>
  The fields keep the names of the source without the trailing underscore, which an
  Isabelle name cannot end with; \<open>vals\<close> is \<^verbatim>\<open>values_\<close>. The six array fields
  are pointers.
\<close>

record RowStartsInfo =
  rsi_num_rows :: int      \<comment> \<open>\<^verbatim>\<open>num_rows_\<close>\<close>
  rsi_mem_space :: string  \<comment> \<open>\<^verbatim>\<open>mem_space_\<close>\<close>
  rsi_idx_start :: nat     \<comment> \<open>\<^verbatim>\<open>idx_start_\<close>\<close>

record hiopMatrixRajaSparseTriplet =
  nrows :: int
  ncols :: int
  nnz :: int
  iRow :: nat
  jCol :: nat
  vals :: nat
  iRow_host :: nat
  jCol_host :: nat
  values_host :: nat
  row_starts_host :: "RowStartsInfo option"
  mem_space :: string

subsection \<open>setToConstant, max_abs_value\<close>

definition setToConstant :: "heap \<Rightarrow> hiopMatrixRajaSparseTriplet \<Rightarrow> real \<Rightarrow> error + heap" where
  "setToConstant h M c =
     (let dd = vals M; nz = nnz M in
      bindE (RAJA_forall nz (\<lambda>i buf. wr buf (int i) c) (dbuf h dd))
        (\<lambda>buf. Inr (h\<lparr>dbuf := (dbuf h)(dd := buf)\<rparr>)))"

definition max_abs_value :: "heap \<Rightarrow> hiopMatrixRajaSparseTriplet \<Rightarrow> error + real" where
  \<comment> \<open>the state of the loop is the \<^verbatim>\<open>RAJA::ReduceMax\<close> object \<^verbatim>\<open>norm\<close>, initialised with 0.0\<close>
  "max_abs_value h M =
     (let vls = dbuf h (vals M) in
      RAJA_forall (nnz M) (\<lambda>i norm. bindE (rd vls (int i)) (\<lambda>v. Inr (max norm \<bar>v\<bar>))) 0)"

subsection \<open>timesVec, transTimesVec\<close>

text \<open>
  The overloads on raw pointers. The vectors \<open>x\<close> and \<open>y\<close> are the allocations the
  pointers point into, separate from the arrays of the matrix.
\<close>

definition scale_body :: "real \<Rightarrow> nat \<Rightarrow> real list \<Rightarrow> error + real list" where
  \<comment> \<open>\<^verbatim>\<open>y[i] *= beta\<close>\<close>
  "scale_body beta i y = bindE (rd y (int i)) (\<lambda>v. wr y (int i) (v * beta))"

definition atomic_add :: "real list \<Rightarrow> int \<Rightarrow> real \<Rightarrow> error + real list" where
  \<comment> \<open>\<^verbatim>\<open>RAJA::AtomicRef<double, hiop_raja_atomic> yy(&y[r]); yy += d\<close>\<close>
  "atomic_add y r d = bindE (rd y r) (\<lambda>v. wr y r (v + d))"

definition timesVec_body ::
  "build_config \<Rightarrow> int \<Rightarrow> int \<Rightarrow> int list \<Rightarrow> int list \<Rightarrow> real list \<Rightarrow> real \<Rightarrow> real list
   \<Rightarrow> nat \<Rightarrow> real list \<Rightarrow> error + real list" where
  "timesVec_body cfg nrs ncs irw jcl vls alpha x i y =
     bindE (rd irw (int i)) (\<lambda>r.
     bindE (c_assert cfg (r < nrs)) (\<lambda>_.
     bindE (rd jcl (int i)) (\<lambda>c.
     bindE (c_assert cfg (c < ncs)) (\<lambda>_.
     bindE (rd x c) (\<lambda>xc.
     bindE (rd vls (int i)) (\<lambda>v.
     atomic_add y r (alpha * xc * v)))))))"

definition timesVec ::
  "build_config \<Rightarrow> heap \<Rightarrow> hiopMatrixRajaSparseTriplet \<Rightarrow> real \<Rightarrow> real list \<Rightarrow> real \<Rightarrow> real list
   \<Rightarrow> error + real list" where
  "timesVec cfg h M beta y alpha x =
     bindE (RAJA_forall (nrows M) (scale_body beta) y) (\<lambda>y.
       RAJA_forall (nnz M)
         (timesVec_body cfg (nrows M) (ncols M) (ibuf h (iRow M)) (ibuf h (jCol M))
            (dbuf h (vals M)) alpha x) y)"

definition transTimesVec_body ::
  "build_config \<Rightarrow> int \<Rightarrow> int \<Rightarrow> int list \<Rightarrow> int list \<Rightarrow> real list \<Rightarrow> real \<Rightarrow> real list
   \<Rightarrow> nat \<Rightarrow> real list \<Rightarrow> error + real list" where
  "transTimesVec_body cfg num_rows num_cols irw jcl vls alpha x i y =
     bindE (rd irw (int i)) (\<lambda>r.
     bindE (c_assert cfg (r < num_rows)) (\<lambda>_.
     bindE (rd jcl (int i)) (\<lambda>c.
     bindE (c_assert cfg (c < num_cols)) (\<lambda>_.
     bindE (rd x r) (\<lambda>xr.
     bindE (rd vls (int i)) (\<lambda>v.
     atomic_add y c (alpha * xr * v)))))))"

definition transTimesVec ::
  "build_config \<Rightarrow> heap \<Rightarrow> hiopMatrixRajaSparseTriplet \<Rightarrow> real \<Rightarrow> real list \<Rightarrow> real \<Rightarrow> real list
   \<Rightarrow> error + real list" where
  "transTimesVec cfg h M beta y alpha x =
     bindE (RAJA_forall (ncols M) (scale_body beta) y) (\<lambda>y.
       RAJA_forall (nnz M)
         (transTimesVec_body cfg (nrows M) (ncols M) (ibuf h (iRow M)) (ibuf h (jCol M))
            (dbuf h (vals M)) alpha x) y)"

subsection \<open>The symmetric matrix: timesVec\<close>

text \<open>
  \<^verbatim>\<open>hiopMatrixRajaSymSparseTriplet\<close> derives from the class above and adds no field; its
  objects are records of the same type. In the body, \<^verbatim>\<open>yy\<close> is the atomic reference
  to \<^verbatim>\<open>y[iRow[i]]\<close>, and both additions go through it.
\<close>

definition sym_timesVec_body ::
  "build_config \<Rightarrow> int \<Rightarrow> int \<Rightarrow> int list \<Rightarrow> int list \<Rightarrow> real list \<Rightarrow> real \<Rightarrow> real list
   \<Rightarrow> nat \<Rightarrow> real list \<Rightarrow> error + real list" where
  "sym_timesVec_body cfg nrs ncs irw jcl vls alpha x i y =
     bindE (rd irw (int i)) (\<lambda>r.
     bindE (c_assert cfg (r < nrs)) (\<lambda>_.
     bindE (rd jcl (int i)) (\<lambda>c.
     bindE (c_assert cfg (c < ncs)) (\<lambda>_.
     bindE (rd x c) (\<lambda>xc.
     bindE (rd vls (int i)) (\<lambda>v.
     bindE (atomic_add y r (alpha * xc * v)) (\<lambda>y.
       if r \<noteq> c
       then bindE (rd x r) (\<lambda>xr. atomic_add y r (alpha * xr * v))
       else Inr y)))))))"

definition sym_timesVec ::
  "build_config \<Rightarrow> heap \<Rightarrow> hiopMatrixRajaSparseTriplet \<Rightarrow> real \<Rightarrow> real list \<Rightarrow> real \<Rightarrow> real list
   \<Rightarrow> error + real list" where
  "sym_timesVec cfg h M beta y alpha x =
     bindE (c_assert cfg (ncols M = nrows M)) (\<lambda>_.
     bindE (RAJA_forall (nrows M) (scale_body beta) y) (\<lambda>y.
       RAJA_forall (nnz M)
         (sym_timesVec_body cfg (nrows M) (ncols M) (ibuf h (iRow M)) (ibuf h (jCol M))
            (dbuf h (vals M)) alpha x) y))"

text \<open>
  The matrix-vector product the symmetric class documents
  (\<^verbatim>\<open>y = beta * y + alpha * this * x\<close>, with only the upper triangle stored), written
  from the specification for comparison with \<open>sym_timesVec\<close>: a stored triplet
  \<open>(r, c, v)\<close> adds \<open>alpha \<cdot> x[c] \<cdot> v\<close> to \<open>y[r]\<close> and, when \<open>r \<noteq> c\<close>,
  \<open>alpha \<cdot> x[r] \<cdot> v\<close> to \<open>y[c]\<close>.
\<close>

definition spec_sym_timesVec_body ::
  "int list \<Rightarrow> int list \<Rightarrow> real list \<Rightarrow> real \<Rightarrow> real list \<Rightarrow> nat \<Rightarrow> real list \<Rightarrow> real list" where
  "spec_sym_timesVec_body irw jcl vls alpha x i y =
     (let r = nat (irw ! i); c = nat (jcl ! i); v = vls ! i;
          y1 = y[r := y ! r + alpha * x ! c * v]
      in if r \<noteq> c then y1[c := y1 ! c + alpha * x ! r * v] else y1)"

definition spec_sym_timesVec ::
  "heap \<Rightarrow> hiopMatrixRajaSparseTriplet \<Rightarrow> real \<Rightarrow> real list \<Rightarrow> real \<Rightarrow> real list \<Rightarrow> real list" where
  "spec_sym_timesVec h M beta y alpha x =
     fold (spec_sym_timesVec_body (ibuf h (iRow M)) (ibuf h (jCol M)) (dbuf h (vals M)) alpha x)
       [0..<nat (nnz M)]
       (map (\<lambda>v. v * beta) (take (nat (nrows M)) y) @ drop (nat (nrows M)) y)"

text \<open>
  The symmetric \<open>2 \<times> 2\<close> matrix with upper-triangle triplets
  \<open>(0,0,1), (0,1,2), (1,1,3)\<close>.
\<close>

definition heap_S22 :: heap where
  "heap_S22 = \<lparr>ibuf = (\<lambda>_. [])(0 := [0, 0, 1], 1 := [0, 1, 1]),
               dbuf = (\<lambda>_. [])(0 := [1, 2, 3]),
               space_of = (\<lambda>_. ''HOST''), brk = 2, allocators = [''HOST''],
               fresh_int = (\<lambda>_. 0), fresh_real = (\<lambda>_. 0)\<rparr>"

definition S22 :: hiopMatrixRajaSparseTriplet where
  "S22 = \<lparr>nrows = 2, ncols = 2, nnz = 3, iRow = 0, jCol = 1, vals = 0,
          iRow_host = 0, jCol_host = 1, values_host = 0,
          row_starts_host = None, mem_space = ''HOST''\<rparr>"

definition debug_build :: build_config where
  "debug_build = \<lparr>use_gpu = False, ndebug = False, deepchecks = True\<rparr>"

definition checked_release_build :: build_config where
  \<comment> \<open>deep checks compiled in, assertions compiled out\<close>
  "checked_release_build = \<lparr>use_gpu = False, ndebug = True, deepchecks = True\<rparr>"

definition release_build :: build_config where
  "release_build = \<lparr>use_gpu = False, ndebug = True, deepchecks = False\<rparr>"

subsection \<open>transAddToSymDenseMatrixUpperTriangle\<close>

text \<open>
  Modelled from the spec: \<^verbatim>\<open>hiopMatrixDense\<close> is not among the sources. The
  specification gives its contract: it exposes its numbers of rows and columns
  (\<^verbatim>\<open>m()\<close>, \<^verbatim>\<open>n()\<close>) and a flat row-major buffer (\<^verbatim>\<open>local_buffer()\<close>). The
  \<^verbatim>\<open>RAJA::View\<close> with a two-dimensional layout of sizes \<open>(m, n)\<close> over that buffer
  addresses entry \<open>(i, j)\<close> at offset \<open>i \<cdot> n + j\<close>.
\<close>

record hiopMatrixDense =
  dense_m :: int
  dense_n :: int
  local_buffer :: "real list"

definition view_add :: "real list \<Rightarrow> int \<Rightarrow> int \<Rightarrow> int \<Rightarrow> real \<Rightarrow> error + real list" where
  \<comment> \<open>\<^verbatim>\<open>WM(i, j) += d\<close> for \<^verbatim>\<open>RAJA::View<double, RAJA::Layout<2>> WM(buf, m, n)\<close>\<close>
  "view_add buf n i j d = bindE (rd buf (i * n + j)) (\<lambda>w. wr buf (i * n + j) (w + d))"

definition deep_assert :: "build_config \<Rightarrow> bool \<Rightarrow> error + unit" where
  \<comment> \<open>an \<^verbatim>\<open>assert\<close> between \<^verbatim>\<open>#ifdef HIOP_DEEPCHECKS\<close> and \<^verbatim>\<open>#endif\<close>\<close>
  "deep_assert cfg b = (if deepchecks cfg then c_assert cfg b else Inr ())"

definition transAdd_body ::
  "build_config \<Rightarrow> int \<Rightarrow> int \<Rightarrow> int list \<Rightarrow> int list \<Rightarrow> real list \<Rightarrow> int \<Rightarrow> int \<Rightarrow> real
   \<Rightarrow> nat \<Rightarrow> real list \<Rightarrow> error + real list" where
  "transAdd_body cfg Wm Wn irw jcl vls row_start col_start alpha it buf =
     bindE (rd jcl (int it)) (\<lambda>c.
     bindE (rd irw (int it)) (\<lambda>r.
       let i = c + row_start; j = r + col_start in
       bindE (deep_assert cfg (i < Wm \<and> j < Wn)) (\<lambda>_.
       bindE (deep_assert cfg (i \<ge> 0 \<and> j \<ge> 0)) (\<lambda>_.
       bindE (deep_assert cfg (i \<le> j)) (\<lambda>_.
       bindE (rd vls (int it)) (\<lambda>v.
       view_add buf Wn i j (alpha * v)))))))"

definition transAddToSymDenseMatrixUpperTriangle ::
  "build_config \<Rightarrow> heap \<Rightarrow> hiopMatrixRajaSparseTriplet \<Rightarrow> int \<Rightarrow> int \<Rightarrow> real \<Rightarrow> hiopMatrixDense
   \<Rightarrow> error + hiopMatrixDense" where
  "transAddToSymDenseMatrixUpperTriangle cfg h M row_start col_start alpha W =
     bindE (c_assert cfg (row_start \<ge> 0 \<and> row_start + ncols M \<le> dense_m W)) (\<lambda>_.
     bindE (c_assert cfg (col_start \<ge> 0 \<and> col_start + nrows M \<le> dense_n W)) (\<lambda>_.
     bindE (c_assert cfg (dense_n W = dense_m W)) (\<lambda>_.
     bindE (RAJA_forall (nnz M)
              (transAdd_body cfg (dense_m W) (dense_n W) (ibuf h (iRow M)) (ibuf h (jCol M))
                 (dbuf h (vals M)) row_start col_start alpha)
              (local_buffer W)) (\<lambda>buf.
     Inr (W\<lparr>local_buffer := buf\<rparr>)))))"

text \<open>The override of the symmetric class.\<close>

definition sym_transAdd_body ::
  "build_config \<Rightarrow> int \<Rightarrow> int \<Rightarrow> int list \<Rightarrow> int list \<Rightarrow> real list \<Rightarrow> int \<Rightarrow> int \<Rightarrow> real
   \<Rightarrow> nat \<Rightarrow> real list \<Rightarrow> error + real list" where
  "sym_transAdd_body cfg Wm Wn irw jcl vls row_start col_start alpha it buf =
     bindE (rd irw (int it)) (\<lambda>r.
     bindE (rd jcl (int it)) (\<lambda>c.
     bindE (c_assert cfg (r \<le> c)) (\<lambda>_.
       let i = r + row_start; j = c + col_start in
       bindE (c_assert cfg (i < Wm \<and> j < Wn)) (\<lambda>_.
       bindE (c_assert cfg (i \<ge> 0 \<and> j \<ge> 0)) (\<lambda>_.
       bindE (c_assert cfg (i \<le> j)) (\<lambda>_.
       bindE (rd vls (int it)) (\<lambda>v.
       view_add buf Wn j i (alpha * v))))))))"

definition sym_transAddToSymDenseMatrixUpperTriangle ::
  "build_config \<Rightarrow> heap \<Rightarrow> hiopMatrixRajaSparseTriplet \<Rightarrow> int \<Rightarrow> int \<Rightarrow> real \<Rightarrow> hiopMatrixDense
   \<Rightarrow> error + hiopMatrixDense" where
  "sym_transAddToSymDenseMatrixUpperTriangle cfg h M row_start col_start alpha W =
     bindE (c_assert cfg (row_start \<ge> 0 \<and> row_start + ncols M \<le> dense_m W)) (\<lambda>_.
     bindE (c_assert cfg (col_start \<ge> 0 \<and> col_start + nrows M \<le> dense_n W)) (\<lambda>_.
     bindE (c_assert cfg (dense_n W = dense_m W)) (\<lambda>_.
     bindE (RAJA_forall (nnz M)
              (sym_transAdd_body cfg (dense_m W) (dense_n W) (ibuf h (iRow M)) (ibuf h (jCol M))
                 (dbuf h (vals M)) row_start col_start alpha)
              (local_buffer W)) (\<lambda>buf.
     Inr (W\<lparr>local_buffer := buf\<rparr>)))))"

text \<open>
  The symmetric \<open>1 \<times> 1\<close> matrix with the single triplet \<open>(0,0,1)\<close>, and a \<open>2 \<times> 2\<close>
  dense matrix of zeros.
\<close>

definition heap_S11 :: heap where
  "heap_S11 = \<lparr>ibuf = (\<lambda>_. [])(0 := [0], 1 := [0]),
               dbuf = (\<lambda>_. [])(0 := [1]),
               space_of = (\<lambda>_. ''HOST''), brk = 2, allocators = [''HOST''],
               fresh_int = (\<lambda>_. 0), fresh_real = (\<lambda>_. 0)\<rparr>"

definition S11 :: hiopMatrixRajaSparseTriplet where
  "S11 = \<lparr>nrows = 1, ncols = 1, nnz = 1, iRow = 0, jCol = 1, vals = 0,
          iRow_host = 0, jCol_host = 1, values_host = 0,
          row_starts_host = None, mem_space = ''HOST''\<rparr>"

definition W22 :: hiopMatrixDense where
  "W22 = \<lparr>dense_m = 2, dense_n = 2, local_buffer = [0, 0, 0, 0]\<rparr>"

subsection \<open>Construction and the host mirror\<close>

definition new_hiopMatrixRajaSparseTriplet ::
  "build_config \<Rightarrow> heap \<Rightarrow> int \<Rightarrow> int \<Rightarrow> int \<Rightarrow> string
   \<Rightarrow> error + (hiopMatrixRajaSparseTriplet \<times> heap)" where
  "new_hiopMatrixRajaSparseTriplet cfg h rows cols nnz0 memspace =
     bindE (if rows = 0 \<or> cols = 0 then c_assert cfg (nnz0 = 0) else Inr ()) (\<lambda>_.
       let nz = (if rows = 0 \<or> cols = 0 then 0 else nnz0);
           msp = (if use_gpu cfg then memspace else ''HOST'')
       in
       bindE (getAllocator h msp) (\<lambda>devAlloc.
       bindE (getAllocator h ''HOST'') (\<lambda>hostAlloc.
         let (pi, h) = allocate_int h devAlloc nz;
             (pj, h) = allocate_int h devAlloc nz;
             (pv, h) = allocate_real h devAlloc nz
         in
         if msp = ''DEVICE''
         then
           let (qi, h) = allocate_int h hostAlloc nz;
               (qj, h) = allocate_int h hostAlloc nz;
               (qv, h) = allocate_real h hostAlloc nz
           in Inr (\<lparr>nrows = rows, ncols = cols, nnz = nz, iRow = pi, jCol = pj, vals = pv,
                     iRow_host = qi, jCol_host = qj, values_host = qv,
                     row_starts_host = None, mem_space = msp\<rparr>, h)
         else
           Inr (\<lparr>nrows = rows, ncols = cols, nnz = nz, iRow = pi, jCol = pj, vals = pv,
                  iRow_host = pi, jCol_host = pj, values_host = pv,
                  row_starts_host = None, mem_space = msp\<rparr>, h))))"

definition copyToDev :: "heap \<Rightarrow> hiopMatrixRajaSparseTriplet \<Rightarrow> error + heap" where
  "copyToDev h M =
     (if mem_space M = ''DEVICE''
      then bindE (copy_int h (iRow M) (iRow_host M)) (\<lambda>h.
           bindE (copy_int h (jCol M) (jCol_host M)) (\<lambda>h.
           copy_real h (vals M) (values_host M)))
      else Inr h)"

definition copyFromDev :: "heap \<Rightarrow> hiopMatrixRajaSparseTriplet \<Rightarrow> error + heap" where
  "copyFromDev h M =
     (if mem_space M = ''DEVICE''
      then bindE (copy_int h (iRow_host M) (iRow M)) (\<lambda>h.
           bindE (copy_int h (jCol_host M) (jCol M)) (\<lambda>h.
           copy_real h (values_host M) (vals M)))
      else Inr h)"

definition mirror_sized :: "heap \<Rightarrow> hiopMatrixRajaSparseTriplet \<Rightarrow> bool" where
  \<comment> \<open>each host-mirror array has as many entries as its device array\<close>
  "mirror_sized g M \<longleftrightarrow>
     length (ibuf g (iRow_host M)) = length (ibuf g (iRow M)) \<and>
     length (ibuf g (jCol_host M)) = length (ibuf g (jCol M)) \<and>
     length (dbuf g (values_host M)) = length (dbuf g (vals M))"

definition gpu_build :: build_config where
  "gpu_build = \<lparr>use_gpu = True, ndebug = True, deepchecks = False\<rparr>"

definition heap_gpu :: heap where
  \<comment> \<open>nothing allocated yet; Umpire knows the host, the device and unified memory\<close>
  "heap_gpu = \<lparr>ibuf = (\<lambda>_. []), dbuf = (\<lambda>_. []), space_of = (\<lambda>_. []), brk = 0,
               allocators = [''HOST'', ''DEVICE'', ''UM''],
               fresh_int = (\<lambda>_. 0), fresh_real = (\<lambda>_. 0)\<rparr>"

subsection \<open>The row-start index\<close>

definition deallocate_int :: "heap \<Rightarrow> nat \<Rightarrow> heap" where
  \<comment> \<open>after \<^verbatim>\<open>alloc.deallocate(p)\<close> no cell of the allocation can be accessed\<close>
  "deallocate_int h p = h\<lparr>ibuf := (ibuf h)(p := [])\<rparr>"

definition new_RowStartsInfo :: "heap \<Rightarrow> int \<Rightarrow> string \<Rightarrow> error + (RowStartsInfo \<times> heap)" where
  "new_RowStartsInfo h n_rows memspace =
     bindE (getAllocator h memspace) (\<lambda>alloc.
       let (p, h) = allocate_int h alloc (n_rows + 1) in
       Inr (\<lparr>rsi_num_rows = n_rows, rsi_mem_space = memspace, rsi_idx_start = p\<rparr>, h))"

definition delete_RowStartsInfo :: "heap \<Rightarrow> RowStartsInfo \<Rightarrow> heap" where
  "delete_RowStartsInfo h rsi = deallocate_int h (rsi_idx_start rsi)"

definition ordering_check :: "build_config \<Rightarrow> int list \<Rightarrow> int list \<Rightarrow> int \<Rightarrow> error + unit" where
  \<comment> \<open>the block under \<^verbatim>\<open>HIOP_DEEPCHECKS\<close> in the inner loop; with \<^verbatim>\<open>NDEBUG\<close> it has no effect\<close>
  "ordering_check cfg irh jch it =
     (if deepchecks cfg \<and> \<not> ndebug cfg \<and> it \<ge> 1
      then
        bindE (rd irh (it - 1)) (\<lambda>a.
        bindE (rd irh it) (\<lambda>b.
        bindE (c_assert cfg (a \<le> b)) (\<lambda>_.
          if a = b
          then bindE (rd jch (it - 1)) (\<lambda>ca. bindE (rd jch it) (\<lambda>cb. c_assert cfg (ca < cb)))
          else Inr ())))
      else Inr ())"

text \<open>
  The inner loop
  \<^verbatim>\<open>while(it_triplet < nnz && iRow_host_[it_triplet] == i - 1)\<close>
  of \<^verbatim>\<open>allocAndBuildRowStarts\<close>; its state is the array \<^verbatim>\<open>rsi->idx_start_\<close> and the
  cursor \<^verbatim>\<open>it_triplet\<close>.
\<close>

function row_scan ::
  "build_config \<Rightarrow> int \<Rightarrow> int list \<Rightarrow> int list \<Rightarrow> int \<Rightarrow> int list \<Rightarrow> int
   \<Rightarrow> error + (int list \<times> int)" where
  "row_scan cfg nz irh jch i idx it =
     (if it < nz then
        (case rd irh it of
           Inl e \<Rightarrow> Inl e
         | Inr r \<Rightarrow>
             if r = i - 1 then
               (case ordering_check cfg irh jch it of
                  Inl e \<Rightarrow> Inl e
                | Inr _ \<Rightarrow>
                    (case bindE (rd idx i) (\<lambda>v. wr idx i (v + 1)) of
                       Inl e \<Rightarrow> Inl e
                     | Inr idx' \<Rightarrow> row_scan cfg nz irh jch i idx' (it + 1)))
             else Inr (idx, it))
      else Inr (idx, it))"
  by pat_completeness auto
termination
  by (relation "measure (\<lambda>(cfg, nz, irh, jch, i, idx, it). nat (nz - it))") auto

declare row_scan.simps [simp del]

definition row_starts_body ::
  "build_config \<Rightarrow> int \<Rightarrow> int list \<Rightarrow> int list \<Rightarrow> nat \<Rightarrow> int list \<times> int
   \<Rightarrow> error + (int list \<times> int)" where
  \<comment> \<open>the body of \<^verbatim>\<open>for(int i = 1; i <= nrows; i++)\<close>\<close>
  "row_starts_body cfg nz irh jch i s =
     (case s of (idx, it) \<Rightarrow>
        bindE (rd idx (int i - 1)) (\<lambda>v.
        bindE (wr idx (int i) v) (\<lambda>idx.
        bindE (row_scan cfg nz irh jch (int i) idx it) (\<lambda>(idx, it).
        bindE (if ndebug cfg then Inr ()
               else bindE (rd idx (int i)) (\<lambda>v. c_assert cfg (v = it))) (\<lambda>_.
        Inr (idx, it))))))"

definition allocAndBuildRowStarts ::
  "build_config \<Rightarrow> heap \<Rightarrow> hiopMatrixRajaSparseTriplet \<Rightarrow> error + (RowStartsInfo \<times> heap)" where
  "allocAndBuildRowStarts cfg h M =
     bindE (c_assert cfg (nrows M \<ge> 0)) (\<lambda>_.
     bindE (new_RowStartsInfo h (nrows M) ''HOST'') (\<lambda>(rsi, h).
     bindE (new_RowStartsInfo h (nrows M) (mem_space M)) (\<lambda>(rsi_dev, h).
       if nrows M \<le> 0
       then Inr (rsi_dev, delete_RowStartsInfo h rsi)
       else
         bindE (wr (ibuf h (rsi_idx_start rsi)) 0 0) (\<lambda>idx.
         bindE (seq_for
                  (row_starts_body cfg (nnz M) (ibuf h (iRow_host M)) (ibuf h (jCol_host M)))
                  [1..<Suc (nat (nrows M))] (idx, 0)) (\<lambda>(idx, it_triplet).
         bindE (c_assert cfg (it_triplet = nnz M)) (\<lambda>_.
         bindE (copy_int (h\<lparr>ibuf := (ibuf h)(rsi_idx_start rsi := idx)\<rparr>)
                  (rsi_idx_start rsi_dev) (rsi_idx_start rsi)) (\<lambda>h.
         Inr (rsi_dev, delete_RowStartsInfo h rsi))))))))"

definition rows_below :: "int list \<Rightarrow> int \<Rightarrow> int" where
  \<comment> \<open>the number of stored row indices smaller than \<open>i\<close>\<close>
  "rows_below irh i = int (length (filter (\<lambda>r. r < i) irh))"

definition row_major_sorted :: "heap \<Rightarrow> hiopMatrixRajaSparseTriplet \<Rightarrow> bool" where
  \<comment> \<open>host triplets sorted by row, then by column, with no pair \<open>(row, col)\<close> stored twice\<close>
  "row_major_sorted h M \<longleftrightarrow>
     sorted_wrt (\<lambda>(r1, c1) (r2, c2). r1 < r2 \<or> (r1 = r2 \<and> c1 < c2))
       (zip (ibuf h (iRow_host M)) (ibuf h (jCol_host M)))"

definition host_triplets_ok :: "heap \<Rightarrow> hiopMatrixRajaSparseTriplet \<Rightarrow> bool" where
  \<comment> \<open>the host index arrays are allocated, hold \<open>nnz\<close> entries, and the rows lie inside the matrix\<close>
  "host_triplets_ok h M \<longleftrightarrow>
     iRow_host M < brk h \<and> jCol_host M < brk h \<and> 0 \<le> nnz M \<and>
     length (ibuf h (iRow_host M)) = nat (nnz M) \<and>
     length (ibuf h (jCol_host M)) = nat (nnz M) \<and>
     list_all (\<lambda>r. 0 \<le> r \<and> r < nrows M) (ibuf h (iRow_host M))"

text \<open>
  The \<open>3 \<times> 3\<close> matrix with triplets at \<open>(0,0), (0,1), (1,2), (2,0)\<close> and values
  \<open>1, 2, 3, 4\<close>; and an empty matrix with no rows in a heap whose fresh memory
  holds the value 7.
\<close>

definition heap_R34 :: heap where
  "heap_R34 = \<lparr>ibuf = (\<lambda>_. [])(0 := [0, 0, 1, 2], 1 := [0, 1, 2, 0]),
               dbuf = (\<lambda>_. [])(2 := [1, 2, 3, 4]),
               space_of = (\<lambda>_. ''HOST''), brk = 3, allocators = [''HOST''],
               fresh_int = (\<lambda>_. 7), fresh_real = (\<lambda>_. 0)\<rparr>"

definition R34 :: hiopMatrixRajaSparseTriplet where
  "R34 = \<lparr>nrows = 3, ncols = 3, nnz = 4, iRow = 0, jCol = 1, vals = 2,
          iRow_host = 0, jCol_host = 1, values_host = 2,
          row_starts_host = None, mem_space = ''HOST''\<rparr>"

definition heap_E00 :: heap where
  "heap_E00 = \<lparr>ibuf = (\<lambda>_. []), dbuf = (\<lambda>_. []),
               space_of = (\<lambda>_. ''HOST''), brk = 3, allocators = [''HOST''],
               fresh_int = (\<lambda>_. 7), fresh_real = (\<lambda>_. 0)\<rparr>"

definition E00 :: hiopMatrixRajaSparseTriplet where
  "E00 = \<lparr>nrows = 0, ncols = 0, nnz = 0, iRow = 0, jCol = 1, vals = 2,
          iRow_host = 0, jCol_host = 1, values_host = 2,
          row_starts_host = None, mem_space = ''HOST''\<rparr>"

subsection \<open>The weighted products into a dense matrix\<close>

definition fdiv :: "real \<Rightarrow> real \<Rightarrow> error + real" where
  "fdiv a d = (if d = 0 then Inl NonFinite else Inr (a / d))"

text \<open>
  The loop of the diagonal entry,
  \<^verbatim>\<open>for(int k=idx_start[i]; k<idx_start[i+1]; k++) acc += values[k] / DM[jCol[k]] * values[k];\<close>
  The bound \<^verbatim>\<open>idx_start[i+1]\<close> is not written by the loop and is passed as \<open>kend\<close>.
\<close>

function diag_acc ::
  "int list \<Rightarrow> real list \<Rightarrow> real list \<Rightarrow> int \<Rightarrow> int \<Rightarrow> real \<Rightarrow> error + real" where
  "diag_acc jcl vls DM kend k acc =
     (if k < kend then
        (case rd vls k of
           Inl e \<Rightarrow> Inl e
         | Inr v \<Rightarrow>
            (case rd jcl k of
               Inl e \<Rightarrow> Inl e
             | Inr c \<Rightarrow>
                (case rd DM c of
                   Inl e \<Rightarrow> Inl e
                 | Inr d \<Rightarrow>
                    (case fdiv v d of
                       Inl e \<Rightarrow> Inl e
                     | Inr q \<Rightarrow> diag_acc jcl vls DM kend (k + 1) (acc + q * v)))))
      else Inr acc)"
  by pat_completeness auto
termination
  by (relation "measure (\<lambda>(jcl, vls, DM, kend, k, acc). nat (kend - k))") auto

declare diag_acc.simps [simp del]

text \<open>
  The merge-join of two rows, the \<^verbatim>\<open>while(ki<idx_start[i+1] && kj<idx_start[j+1])\<close>
  loop that both weighted products contain. In
  \<^verbatim>\<open>addMDinvMtransToDiagBlockOfSymDeMatUTri\<close> the two rows are rows of the same matrix
  (\<open>nz1 = nz2\<close>, \<open>jc1 = jc2\<close>, \<open>v1 = v2\<close>); in \<^verbatim>\<open>addMDinvNtransToSymDeMatUTri\<close> they are
  rows of \<^verbatim>\<open>M1\<close> and \<^verbatim>\<open>M2\<close>, and the divisor is read at \<^verbatim>\<open>jCol[ki]\<close>, the column
  array of \<^verbatim>\<open>M1\<close>. The bounds \<open>e1\<close>, \<open>e2\<close> are the entries \<^verbatim>\<open>idx_start[i+1]\<close>,
  \<^verbatim>\<open>idx_start[j+1]\<close>, which the loop does not write.
\<close>

function merge_join ::
  "build_config \<Rightarrow> int \<Rightarrow> int \<Rightarrow> int list \<Rightarrow> int list \<Rightarrow> real list \<Rightarrow> real list \<Rightarrow> real list
   \<Rightarrow> int \<Rightarrow> int \<Rightarrow> int \<Rightarrow> int \<Rightarrow> real \<Rightarrow> error + real" where
  "merge_join cfg nz1 nz2 jc1 jc2 v1 v2 DM e1 e2 ki kj acc =
     (if ki < e1 \<and> kj < e2 then
        (case c_assert cfg (ki < nz1) of
           Inl e \<Rightarrow> Inl e
         | Inr _ \<Rightarrow>
        (case c_assert cfg (kj < nz2) of
           Inl e \<Rightarrow> Inl e
         | Inr _ \<Rightarrow>
        (case rd jc1 ki of
           Inl e \<Rightarrow> Inl e
         | Inr ci \<Rightarrow>
        (case rd jc2 kj of
           Inl e \<Rightarrow> Inl e
         | Inr cj \<Rightarrow>
            if ci = cj then
              (case rd v1 ki of
                 Inl e \<Rightarrow> Inl e
               | Inr a \<Rightarrow>
              (case rd DM ci of
                 Inl e \<Rightarrow> Inl e
               | Inr d \<Rightarrow>
              (case fdiv a d of
                 Inl e \<Rightarrow> Inl e
               | Inr q \<Rightarrow>
              (case rd v2 kj of
                 Inl e \<Rightarrow> Inl e
               | Inr b \<Rightarrow>
                  merge_join cfg nz1 nz2 jc1 jc2 v1 v2 DM e1 e2 (ki + 1) (kj + 1) (acc + q * b)))))
            else if ci < cj
              then merge_join cfg nz1 nz2 jc1 jc2 v1 v2 DM e1 e2 (ki + 1) kj acc
              else merge_join cfg nz1 nz2 jc1 jc2 v1 v2 DM e1 e2 ki (kj + 1) acc))))
      else Inr acc)"
  by pat_completeness auto
termination
  by (relation "measure (\<lambda>(cfg, nz1, nz2, jc1, jc2, v1, v2, DM, e1, e2, ki, kj, acc).
                            nat (e1 - ki) + nat (e2 - kj))") auto

declare merge_join.simps [simp del]

definition offdiag_body ::
  "build_config \<Rightarrow> int \<Rightarrow> int list \<Rightarrow> int list \<Rightarrow> real list \<Rightarrow> real list \<Rightarrow> int \<Rightarrow> int \<Rightarrow> int
   \<Rightarrow> real \<Rightarrow> nat \<Rightarrow> nat \<Rightarrow> real list \<Rightarrow> error + real list" where
  \<comment> \<open>the body of \<^verbatim>\<open>for(int j=i+1; j<num_rows; j++)\<close>\<close>
  "offdiag_body cfg num_non_zero idx_start jcl vls DM Wn row_dest_start col_dest_start alpha i j buf =
     bindE (rd idx_start (int i)) (\<lambda>ki.
     bindE (rd idx_start (int j)) (\<lambda>kj.
     bindE (rd idx_start (int i + 1)) (\<lambda>ei.
     bindE (rd idx_start (int j + 1)) (\<lambda>ej.
     bindE (merge_join cfg num_non_zero num_non_zero jcl jcl vls vls DM ei ej ki kj 0) (\<lambda>acc.
     view_add buf Wn (int i + row_dest_start) (int j + col_dest_start) (alpha * acc))))))"

definition diag_block_body ::
  "build_config \<Rightarrow> int \<Rightarrow> int \<Rightarrow> int list \<Rightarrow> int list \<Rightarrow> real list \<Rightarrow> real list \<Rightarrow> int \<Rightarrow> int
   \<Rightarrow> int \<Rightarrow> real \<Rightarrow> nat \<Rightarrow> real list \<Rightarrow> error + real list" where
  \<comment> \<open>the body of the \<^verbatim>\<open>RAJA::forall\<close> over the rows\<close>
  "diag_block_body cfg num_rows num_non_zero idx_start jcl vls DM Wn row_dest_start col_dest_start
       alpha i buf =
     bindE (rd idx_start (int i)) (\<lambda>ks.
     bindE (rd idx_start (int i + 1)) (\<lambda>ke.
     bindE (diag_acc jcl vls DM ke ks 0) (\<lambda>acc.
     bindE (view_add buf Wn (int i + row_dest_start) (int i + col_dest_start) (alpha * acc)) (\<lambda>buf.
     seq_for (offdiag_body cfg num_non_zero idx_start jcl vls DM Wn row_dest_start col_dest_start
                alpha i)
       [Suc i..<nat num_rows] buf))))"

definition addMDinvMtransToDiagBlockOfSymDeMatUTri ::
  "build_config \<Rightarrow> heap \<Rightarrow> hiopMatrixRajaSparseTriplet \<Rightarrow> int \<Rightarrow> real \<Rightarrow> real list
   \<Rightarrow> hiopMatrixDense
   \<Rightarrow> error + (heap \<times> hiopMatrixRajaSparseTriplet \<times> hiopMatrixDense)" where
  "addMDinvMtransToDiagBlockOfSymDeMatUTri cfg h M rowAndCol_dest_start alpha D W =
     (let row_dest_start = rowAndCol_dest_start; col_dest_start = rowAndCol_dest_start in
      bindE (c_assert cfg (row_dest_start \<ge> 0 \<and> row_dest_start + nrows M \<le> dense_m W)) (\<lambda>_.
      bindE (c_assert cfg (col_dest_start \<ge> 0 \<and> col_dest_start + nrows M \<le> dense_n W)) (\<lambda>_.
      bindE (c_assert cfg (int (length D) = ncols M)) (\<lambda>_.
      bindE (case row_starts_host M of
               None \<Rightarrow> allocAndBuildRowStarts cfg h M
             | Some rsi \<Rightarrow> Inr (rsi, h)) (\<lambda>(rsi, h).
      bindE (RAJA_forall (nrows M)
               (diag_block_body cfg (nrows M) (nnz M) (ibuf h (rsi_idx_start rsi))
                  (ibuf h (jCol M)) (dbuf h (vals M)) D (dense_n W)
                  row_dest_start col_dest_start alpha)
               (local_buffer W)) (\<lambda>buf.
      Inr (h, M\<lparr>row_starts_host := Some rsi\<rparr>, W\<lparr>local_buffer := buf\<rparr>)))))))"

text \<open>
  \<^verbatim>\<open>addMDinvNtransToSymDeMatUTri\<close>. The state of its loops is the buffer of \<open>W\<close>
  and the lines printed to the standard output.
\<close>

definition lower_triangle_warning :: string where
  "lower_triangle_warning =
     ''[warning] lower triangular element updated in addMDinvNtransToSymDeMatUTri''"

definition MDinvN_body ::
  "build_config \<Rightarrow> int \<Rightarrow> int \<Rightarrow> int list \<Rightarrow> int list \<Rightarrow> int list \<Rightarrow> int list
   \<Rightarrow> real list \<Rightarrow> real list \<Rightarrow> real list \<Rightarrow> int \<Rightarrow> int \<Rightarrow> int \<Rightarrow> real
   \<Rightarrow> nat \<Rightarrow> nat \<Rightarrow> real list \<times> string list \<Rightarrow> error + (real list \<times> string list)" where
  \<comment> \<open>the body of \<^verbatim>\<open>for(int j=0; j<m2; j++)\<close>\<close>
  "MDinvN_body cfg M1nnz M2nnz M1_idx_start M2_idx_start M1jCol M2jCol M1values M2values DM Wn
       row_dest_start col_dest_start alpha i j s =
     (case s of (buf, out) \<Rightarrow>
        bindE (rd M1_idx_start (int i)) (\<lambda>ki.
        bindE (rd M2_idx_start (int j)) (\<lambda>kj.
        bindE (rd M1_idx_start (int i + 1)) (\<lambda>ei.
        bindE (rd M2_idx_start (int j + 1)) (\<lambda>ej.
        bindE (merge_join cfg M1nnz M2nnz M1jCol M2jCol M1values M2values DM ei ej ki kj 0) (\<lambda>acc.
          let out = (if deepchecks cfg \<and> int i + row_dest_start > int j + col_dest_start
                     then out @ [lower_triangle_warning] else out)
          in
          bindE (deep_assert cfg (int i + row_dest_start \<le> int j + col_dest_start)) (\<lambda>_.
          bindE (view_add buf Wn (int i + row_dest_start) (int j + col_dest_start) (alpha * acc))
            (\<lambda>buf. Inr (buf, out)))))))))"

definition addMDinvNtransToSymDeMatUTri ::
  "build_config \<Rightarrow> heap \<Rightarrow> hiopMatrixRajaSparseTriplet \<Rightarrow> int \<Rightarrow> int \<Rightarrow> real \<Rightarrow> real list
   \<Rightarrow> hiopMatrixRajaSparseTriplet \<Rightarrow> hiopMatrixDense
   \<Rightarrow> error + (heap \<times> hiopMatrixRajaSparseTriplet \<times> hiopMatrixRajaSparseTriplet
                \<times> hiopMatrixDense \<times> string list)" where
  "addMDinvNtransToSymDeMatUTri cfg h M1 row_dest_start col_dest_start alpha D M2 W =
     (let m1 = nrows M1; nx = ncols M1; m2 = nrows M2 in
      bindE (c_assert cfg (nx = ncols M2)) (\<lambda>_.
      bindE (c_assert cfg (int (length D) = nx)) (\<lambda>_.
      bindE (c_assert cfg (row_dest_start \<ge> 0 \<and> row_dest_start + m1 \<le> dense_m W)) (\<lambda>_.
      bindE (c_assert cfg (col_dest_start \<ge> 0 \<and> col_dest_start + m2 \<le> dense_n W)) (\<lambda>_.
      bindE (case row_starts_host M1 of
               None \<Rightarrow> allocAndBuildRowStarts cfg h M1
             | Some rsi \<Rightarrow> Inr (rsi, h)) (\<lambda>(rsi1, h).
      bindE (case row_starts_host M2 of
               None \<Rightarrow> allocAndBuildRowStarts cfg h M2
             | Some rsi \<Rightarrow> Inr (rsi, h)) (\<lambda>(rsi2, h).
      bindE (RAJA_forall m1
               (\<lambda>i. seq_for
                  (MDinvN_body cfg (nnz M1) (nnz M2)
                     (ibuf h (rsi_idx_start rsi1)) (ibuf h (rsi_idx_start rsi2))
                     (ibuf h (jCol M1)) (ibuf h (jCol M2)) (dbuf h (vals M1)) (dbuf h (vals M2))
                     D (dense_n W) row_dest_start col_dest_start alpha i)
                  [0..<nat m2])
               (local_buffer W, [])) (\<lambda>(buf, out).
      Inr (h, M1\<lparr>row_starts_host := Some rsi1\<rparr>, M2\<lparr>row_starts_host := Some rsi2\<rparr>,
           W\<lparr>local_buffer := buf\<rparr>, out)))))))))"

text \<open>A one-row matrix \<open>[a]\<close> and a \<open>1 \<times> 1\<close> dense matrix.\<close>

definition heap_row :: "real \<Rightarrow> heap" where
  "heap_row a = \<lparr>ibuf = (\<lambda>_. [])(0 := [0], 1 := [0]),
                 dbuf = (\<lambda>_. [])(2 := [a]),
                 space_of = (\<lambda>_. ''HOST''), brk = 3, allocators = [''HOST''],
                 fresh_int = (\<lambda>_. 7), fresh_real = (\<lambda>_. 0)\<rparr>"

definition A11 :: hiopMatrixRajaSparseTriplet where
  "A11 = \<lparr>nrows = 1, ncols = 1, nnz = 1, iRow = 0, jCol = 1, vals = 2,
          iRow_host = 0, jCol_host = 1, values_host = 2,
          row_starts_host = None, mem_space = ''HOST''\<rparr>"

definition W33 :: hiopMatrixDense where
  "W33 = \<lparr>dense_m = 3, dense_n = 3, local_buffer = [0, 0, 0, 0, 0, 0, 0, 0, 0]\<rparr>"

subsection \<open>Well-formed triplet storage\<close>

text \<open>
  What the constructor and the assembler establish and every kernel relies on: the
  three arrays hold \<open>nnz\<close> entries and every stored index lies inside the matrix.
\<close>

definition triplets_ok :: "heap \<Rightarrow> hiopMatrixRajaSparseTriplet \<Rightarrow> bool" where
  "triplets_ok h M \<longleftrightarrow>
     length (ibuf h (iRow M)) = nat (nnz M) \<and>
     length (ibuf h (jCol M)) = nat (nnz M) \<and>
     length (dbuf h (vals M)) = nat (nnz M) \<and>
     list_all (\<lambda>r. 0 \<le> r \<and> r < nrows M) (ibuf h (iRow M)) \<and>
     list_all (\<lambda>c. 0 \<le> c \<and> c < ncols M) (ibuf h (jCol M))"

definition dotprod :: "real list \<Rightarrow> real list \<Rightarrow> real" where
  "dotprod u v = (\<Sum>i<length u. u ! i * v ! i)"

subsection \<open>The effect of a scatter-add loop\<close>

text \<open>
  Adding \<open>amt k\<close> into the cell \<open>tgt k\<close> for \<open>k = 0, \<dots>, n - 1\<close>: what the
  scatter-add loops compute when every access is inside its allocation.
\<close>

definition scatter :: "(nat \<Rightarrow> nat) \<Rightarrow> (nat \<Rightarrow> real) \<Rightarrow> nat \<Rightarrow> real list \<Rightarrow> real list" where
  "scatter tgt amt n y = fold (\<lambda>k y. y[tgt k := y ! tgt k + amt k]) [0..<n] y"

subsection \<open>The matrices as mathematical objects\<close>

text \<open>
  The entry \<open>A[i,c]\<close> of a triplet matrix is the sum of the stored values at position
  \<open>(i, c)\<close>: at most one value when no position is stored twice, and 0 when none is.
  \<open>weighted_dot\<close> is the entry \<open>(i, j)\<close> of \<open>M1 \<cdot> diag(D)\<^sup>-\<^sup>1 \<cdot> M2\<^sup>T\<close>.
\<close>

definition entry_of :: "int list \<Rightarrow> int list \<Rightarrow> real list \<Rightarrow> nat \<Rightarrow> nat \<Rightarrow> real" where
  "entry_of irw jcl vls i c =
     (\<Sum>k<length vls. if irw ! k = int i \<and> jcl ! k = int c then vls ! k else 0)"

definition entry :: "heap \<Rightarrow> hiopMatrixRajaSparseTriplet \<Rightarrow> nat \<Rightarrow> nat \<Rightarrow> real" where
  "entry h M = entry_of (ibuf h (iRow M)) (ibuf h (jCol M)) (dbuf h (vals M))"

definition weighted_dot ::
  "heap \<Rightarrow> hiopMatrixRajaSparseTriplet \<Rightarrow> hiopMatrixRajaSparseTriplet \<Rightarrow> real list
   \<Rightarrow> nat \<Rightarrow> nat \<Rightarrow> real" where
  "weighted_dot h M1 M2 D i j = (\<Sum>c<nat (ncols M1). entry h M1 i c / D ! c * entry h M2 j c)"

definition dense_at :: "hiopMatrixDense \<Rightarrow> int \<Rightarrow> int \<Rightarrow> real" where
  \<comment> \<open>the entry in row \<open>p\<close> and column \<open>q\<close> of the dense matrix\<close>
  "dense_at W p q = local_buffer W ! nat (p * dense_n W + q)"

definition dense_ok :: "hiopMatrixDense \<Rightarrow> bool" where
  "dense_ok W \<longleftrightarrow>
     0 \<le> dense_m W \<and> 0 \<le> dense_n W \<and>
     length (local_buffer W) = nat (dense_m W * dense_n W)"

definition rows_indexed :: "int list \<Rightarrow> int list \<Rightarrow> int list \<Rightarrow> nat \<Rightarrow> nat \<Rightarrow> nat \<Rightarrow> bool" where
  \<comment> \<open>\<open>idx\<close> is the row-start index of the sorted triplets \<open>(irw, jcl)\<close> of an \<open>n \<times> nc\<close> matrix\<close>
  "rows_indexed irw jcl idx n nz nc \<longleftrightarrow>
     length irw = nz \<and> length jcl = nz \<and>
     idx = map (\<lambda>i. rows_below irw (int i)) [0..<Suc n] \<and>
     sorted_wrt (\<lambda>(r1, c1) (r2, c2). r1 < r2 \<or> (r1 = r2 \<and> c1 < c2)) (zip irw jcl) \<and>
     (\<forall>r\<in>set irw. 0 \<le> r \<and> r < int n) \<and>
     (\<forall>c\<in>set jcl. 0 \<le> c \<and> c < int nc)"

definition row_starts_cached :: "heap \<Rightarrow> hiopMatrixRajaSparseTriplet \<Rightarrow> bool" where
  \<comment> \<open>no index has been built yet, or the cached one is the index of the triplets\<close>
  "row_starts_cached h M \<longleftrightarrow>
     (case row_starts_host M of
        None \<Rightarrow> True
      | Some rsi \<Rightarrow>
          rsi_idx_start rsi < brk h \<and>
          ibuf h (rsi_idx_start rsi)
            = map (\<lambda>i. rows_below (ibuf h (iRow_host M)) (int i)) [0..<Suc (nat (nrows M))])"

definition kernel_ready :: "heap \<Rightarrow> hiopMatrixRajaSparseTriplet \<Rightarrow> bool" where
  \<comment> \<open>a well-formed sorted matrix whose host index arrays agree with the device arrays\<close>
  "kernel_ready h M \<longleftrightarrow>
     0 \<le> nrows M \<and> 0 \<le> ncols M \<and>
     triplets_ok h M \<and> host_triplets_ok h M \<and> row_major_sorted h M \<and>
     ibuf h (iRow_host M) = ibuf h (iRow M) \<and> ibuf h (jCol_host M) = ibuf h (jCol M) \<and>
     iRow M < brk h \<and> jCol M < brk h \<and>
     ''HOST'' \<in> set (allocators h) \<and> mem_space M \<in> set (allocators h) \<and>
     row_starts_cached h M"

definition lower_pair :: "int \<Rightarrow> int \<Rightarrow> nat \<Rightarrow> nat \<Rightarrow> bool" where
  \<comment> \<open>the destination of the pair \<open>(i, j)\<close> lies strictly below the diagonal of \<open>W\<close>\<close>
  "lower_pair row_dest_start col_dest_start i j \<longleftrightarrow>
     int i + row_dest_start > int j + col_dest_start"

definition lower_pairs :: "int \<Rightarrow> int \<Rightarrow> nat \<Rightarrow> nat \<Rightarrow> nat" where
  \<comment> \<open>how many pairs of an \<open>m1 \<times> m2\<close> block have their destination below the diagonal\<close>
  "lower_pairs row_dest_start col_dest_start m1 m2 =
     (\<Sum>i\<in>{0..<m1}. \<Sum>j\<in>{0..<m2}. if lower_pair row_dest_start col_dest_start i j then 1 else 0)"

subsection \<open>Example objects\<close>

text \<open>
  The \<open>2 \<times> 3\<close> matrix with triplets \<open>(0,0,2), (0,2,3), (1,1,4)\<close> in host memory:
  row indices at address 0, column indices at address 1, values at address 0 of the
  \<^verbatim>\<open>double\<close> allocations; the host mirror is the same three allocations.
\<close>

definition heap_A23 :: heap where
  "heap_A23 = \<lparr>ibuf = (\<lambda>_. [])(0 := [0, 0, 1], 1 := [0, 2, 1]),
               dbuf = (\<lambda>_. [])(0 := [2, 3, 4]),
               space_of = (\<lambda>_. ''HOST''), brk = 2, allocators = [''HOST''],
               fresh_int = (\<lambda>_. 0), fresh_real = (\<lambda>_. 0)\<rparr>"

definition A23 :: hiopMatrixRajaSparseTriplet where
  "A23 = \<lparr>nrows = 2, ncols = 3, nnz = 3, iRow = 0, jCol = 1, vals = 0,
          iRow_host = 0, jCol_host = 1, values_host = 0,
          row_starts_host = None, mem_space = ''HOST''\<rparr>"

text \<open>
  The \<open>3 \<times> 3\<close> matrix with triplets \<open>(0,0,2), (0,2,3), (2,1,4)\<close>,
  whose row 1 is empty, and a vector \<open>y\<close> longer than the matrix has rows.
\<close>

definition heap_B33 :: heap where
  "heap_B33 = \<lparr>ibuf = (\<lambda>_. [])(0 := [0, 0, 2], 1 := [0, 2, 1]),
               dbuf = (\<lambda>_. [])(0 := [2, 3, 4]),
               space_of = (\<lambda>_. ''HOST''), brk = 2, allocators = [''HOST''],
               fresh_int = (\<lambda>_. 0), fresh_real = (\<lambda>_. 0)\<rparr>"

definition B33 :: hiopMatrixRajaSparseTriplet where
  "B33 = \<lparr>nrows = 3, ncols = 3, nnz = 3, iRow = 0, jCol = 1, vals = 0,
          iRow_host = 0, jCol_host = 1, values_host = 0,
          row_starts_host = None, mem_space = ''HOST''\<rparr>"

section \<open>Properties\<close>

lemma seq_for_append:
  "seq_for f (xs @ ys) s = bindE (seq_for f xs s) (seq_for f ys)"
  by (induction xs arbitrary: s) (simp_all add: bindE_def split: sum.splits)

lemma bindE_Inr [simp]: "bindE (Inr v) f = f v"
  by (simp add: bindE_def)

lemma bindE_Inl [simp]: "bindE (Inl e) f = Inl e"
  by (simp add: bindE_def)

lemma rd_in [simp]: "i < length xs \<Longrightarrow> rd xs (int i) = Inr (xs ! i)"
  by (simp add: rd_def)

lemma wr_in [simp]: "i < length xs \<Longrightarrow> wr xs (int i) v = Inr (xs[i := v])"
  by (simp add: wr_def)

text \<open>
  A loop whose body succeeds at every index while an invariant holds is the fold of
  the body's effect.
\<close>

lemma seq_for_upt_pure:
  assumes step: "\<And>i s. i < n \<Longrightarrow> I i s \<Longrightarrow> f i s = Inr (g i s) \<and> I (Suc i) (g i s)"
    and init: "I 0 s0"
  shows "seq_for f [0..<n] s0 = Inr (fold g [0..<n] s0) \<and> I n (fold g [0..<n] s0)"
  using step
proof (induction n)
  case 0
  show ?case using init by simp
next
  case (Suc n)
  have IH: "seq_for f [0..<n] s0 = Inr (fold g [0..<n] s0) \<and> I n (fold g [0..<n] s0)"
    using Suc.IH Suc.prems by simp
  have st: "f n (fold g [0..<n] s0) = Inr (g n (fold g [0..<n] s0))
      \<and> I (Suc n) (g n (fold g [0..<n] s0))"
    using Suc.prems [of n "fold g [0..<n] s0"] IH by simp
  show ?case using IH st by (simp add: seq_for_append)
qed

lemma RAJA_forall_pure:
  assumes "\<And>i s. i < nat n \<Longrightarrow> I i s \<Longrightarrow> f i s = Inr (g i s) \<and> I (Suc i) (g i s)"
    and "I 0 s0"
  shows "RAJA_forall n f s0 = Inr (fold g [0..<nat n] s0) \<and> I (nat n) (fold g [0..<nat n] s0)"
  unfolding RAJA_forall_def using assms by (rule seq_for_upt_pure)

subsection \<open>Filling the values and the largest absolute value\<close>

lemma fold_fill:
  "k \<le> length buf \<Longrightarrow> fold (\<lambda>i b. b[i := c]) [0..<k] buf = replicate k c @ drop k buf"
proof (induction k)
  case 0
  then show ?case by simp
next
  case (Suc k)
  then have "k < length buf" by simp
  then have "(replicate k c @ drop k buf)[k := c] = replicate (Suc k) c @ drop (Suc k) buf"
    by (simp add: list_update_append replicate_append_same upd_conv_take_nth_drop Cons_nth_drop_Suc)
  with Suc show ?case by simp
qed

lemma fold_max_abs:
  "n \<le> length vls \<Longrightarrow>
   fold (\<lambda>i norm. max norm \<bar>vls ! i\<bar>) [0..<n] (0::real) = Max (insert 0 ((\<lambda>v. \<bar>v\<bar>) ` set (take n vls)))"
proof (induction n)
  case 0
  then show ?case by simp
next
  case (Suc n)
  then have n: "n < length vls" by simp
  let ?S = "insert 0 ((\<lambda>v. \<bar>v\<bar>) ` set (take n vls))"
  have "insert 0 ((\<lambda>v. \<bar>v\<bar>) ` set (take (Suc n) vls)) = insert \<bar>vls ! n\<bar> ?S"
    using n by (auto simp add: take_Suc_conv_app_nth)
  moreover have "Max (insert \<bar>vls ! n\<bar> ?S) = max \<bar>vls ! n\<bar> (Max ?S)"
    by (rule Max_insert) simp_all
  ultimately show ?case using Suc n by (simp add: max.commute)
qed

lemma setToConstant_result:
  assumes "length (dbuf h (vals M)) = nat (nnz M)"
  shows "setToConstant h M c = Inr (h\<lparr>dbuf := (dbuf h)(vals M := replicate (nat (nnz M)) c)\<rparr>)"
proof -
  let ?b = "dbuf h (vals M)"
  have "RAJA_forall (nnz M) (\<lambda>i buf. wr buf (int i) c) ?b
        = Inr (fold (\<lambda>i b. b[i := c]) [0..<nat (nnz M)] ?b)
        \<and> length (fold (\<lambda>i b. b[i := c]) [0..<nat (nnz M)] ?b) = nat (nnz M)"
    by (rule RAJA_forall_pure [where I = "\<lambda>i b. length b = nat (nnz M)"]) (simp_all add: assms)
  then show ?thesis
    using assms by (simp add: setToConstant_def Let_def fold_fill)
qed

lemma max_abs_value_result:
  assumes "length (dbuf h (vals M)) = nat (nnz M)"
  shows "max_abs_value h M = Inr (Max (insert 0 ((\<lambda>v. \<bar>v\<bar>) ` set (dbuf h (vals M)))))"
proof -
  let ?v = "dbuf h (vals M)"
  have "RAJA_forall (nnz M) (\<lambda>i norm. bindE (rd ?v (int i)) (\<lambda>v. Inr (max norm \<bar>v\<bar>))) (0::real)
        = Inr (fold (\<lambda>i norm. max norm \<bar>?v ! i\<bar>) [0..<nat (nnz M)] 0)
        \<and> True"
    by (rule RAJA_forall_pure [where I = "\<lambda>i b. True"]) (simp_all add: assms)
  then show ?thesis
    using assms by (simp add: max_abs_value_def Let_def fold_max_abs)
qed

text \<open>
  C9. For a matrix whose value array has \<open>nnz\<close> entries, as the constructor allocates
  it, and every real \<open>c\<close>: \<open>setToConstant c\<close> followed by \<open>max_abs_value\<close> returns
  \<open>\<bar>c\<bar>\<close> when \<open>nnz > 0\<close> and \<open>0\<close> otherwise; and \<open>max_abs_value\<close> returns the maximum of
  \<open>\<bar>value[k]\<bar>\<close> over the stored entries, \<open>0\<close> for an empty matrix.
\<close>

theorem max_abs_value_setToConstant:
  assumes "length (dbuf h (vals M)) = nat (nnz M)"
  shows "(\<exists>h'. setToConstant h M c = Inr h'
            \<and> max_abs_value h' M = Inr (if 0 < nnz M then \<bar>c\<bar> else 0))
       \<and> max_abs_value h M
           = Inr (if nnz M \<le> 0 then 0 else Max ((\<lambda>v. \<bar>v\<bar>) ` set (dbuf h (vals M))))"
proof -
  let ?h = "h\<lparr>dbuf := (dbuf h)(vals M := replicate (nat (nnz M)) c)\<rparr>"
  have len: "length (dbuf ?h (vals M)) = nat (nnz M)" by simp
  have 1: "max_abs_value ?h M = Inr (if 0 < nnz M then \<bar>c\<bar> else 0)"
    using max_abs_value_result [OF len] by simp
  have ne: "0 < nnz M \<Longrightarrow> dbuf h (vals M) \<noteq> []" using assms by auto
  have 2: "max_abs_value h M
           = Inr (if nnz M \<le> 0 then 0 else Max ((\<lambda>v. \<bar>v\<bar>) ` set (dbuf h (vals M))))"
  proof (cases "nnz M \<le> 0")
    case True
    then show ?thesis using max_abs_value_result [OF assms] assms by simp
  next
    case False
    then have nonempty: "dbuf h (vals M) \<noteq> []" using ne by simp
    have "Max (insert 0 ((\<lambda>v. \<bar>v\<bar>) ` set (dbuf h (vals M)))) = Max ((\<lambda>v. \<bar>v\<bar>) ` set (dbuf h (vals M)))"
    proof -
      obtain v where "v \<in> set (dbuf h (vals M))" using nonempty by (cases "dbuf h (vals M)") auto
      then have "\<bar>v\<bar> \<in> (\<lambda>v. \<bar>v\<bar>) ` set (dbuf h (vals M))" by simp
      moreover have "0 \<le> \<bar>v\<bar>" by simp
      ultimately have "0 \<le> Max ((\<lambda>v. \<bar>v\<bar>) ` set (dbuf h (vals M)))"
        by (meson List.finite_set Max_ge finite_imageI order_trans)
      then show ?thesis using nonempty by (simp add: max_def)
    qed
    then show ?thesis using max_abs_value_result [OF assms] False by simp
  qed
  show ?thesis using setToConstant_result [OF assms] 1 2 by simp
qed

theorem max_abs_value_setToConstant_witness:
  "length (dbuf heap_A23 (vals A23)) = nat (nnz A23)
   \<and> (\<exists>h'. setToConstant heap_A23 A23 (- 5) = Inr h' \<and> max_abs_value h' A23 = Inr 5)
   \<and> max_abs_value heap_A23 A23 = Inr 4"
proof -
  have len: "length (dbuf heap_A23 (vals A23)) = nat (nnz A23)"
    by (simp add: heap_A23_def A23_def)
  show ?thesis
    using len max_abs_value_setToConstant [OF len, of "- 5"]
    by (simp add: heap_A23_def A23_def)
qed

subsection \<open>Products with a vector\<close>

lemma c_assert_True [simp]: "b \<Longrightarrow> c_assert cfg b = Inr ()"
  by (simp add: c_assert_def)

lemma rd_nat: "0 \<le> i \<Longrightarrow> i < int (length xs) \<Longrightarrow> rd xs i = Inr (xs ! nat i)"
  by (simp add: rd_def)

lemma atomic_add_nat:
  "0 \<le> r \<Longrightarrow> r < int (length y) \<Longrightarrow> atomic_add y r d = Inr (y[nat r := y ! nat r + d])"
  by (simp add: atomic_add_def rd_def wr_def)

lemma triplets_okD:
  assumes "triplets_ok h M" and "k < nat (nnz M)"
  shows "k < length (ibuf h (iRow M))" and "k < length (ibuf h (jCol M))"
    and "k < length (dbuf h (vals M))"
    and "0 \<le> ibuf h (iRow M) ! k" and "ibuf h (iRow M) ! k < nrows M"
    and "0 \<le> ibuf h (jCol M) ! k" and "ibuf h (jCol M) ! k < ncols M"
  using assms by (simp_all add: triplets_ok_def list_all_length)

text \<open>The effect of the scaling loop.\<close>

lemma fold_scale:
  "n \<le> length y \<Longrightarrow>
   fold (\<lambda>i y. y[i := y ! i * beta]) [0..<n] y = map (\<lambda>v. v * beta) (take n y) @ drop n y"
proof (induction n)
  case 0
  then show ?case by simp
next
  case (Suc n)
  then have n: "n < length y" by simp
  have "(map (\<lambda>v. v * beta) (take n y) @ drop n y)[n := (map (\<lambda>v. v * beta) (take n y) @ drop n y) ! n * beta]
        = map (\<lambda>v. v * beta) (take (Suc n) y) @ drop (Suc n) y"
    using n by (simp add: list_update_append nth_append take_Suc_conv_app_nth
        upd_conv_take_nth_drop Cons_nth_drop_Suc [symmetric])
  with Suc show ?case by simp
qed

lemma scale_loop:
  assumes "nat n \<le> length y"
  shows "RAJA_forall n (scale_body beta) y
         = Inr (map (\<lambda>v. v * beta) (take (nat n) y) @ drop (nat n) y)"
proof -
  have "RAJA_forall n (scale_body beta) y
        = Inr (fold (\<lambda>i y. y[i := y ! i * beta]) [0..<nat n] y)
        \<and> length (fold (\<lambda>i y. y[i := y ! i * beta]) [0..<nat n] y) = length y"
    by (rule RAJA_forall_pure [where I = "\<lambda>i z. length z = length y"])
       (use assms in \<open>simp_all add: scale_body_def\<close>)
  then show ?thesis using assms by (simp add: fold_scale)
qed

lemma length_scatter [simp]: "length (scatter tgt amt n y) = length y"
  by (induction n) (simp_all add: scatter_def)

lemma scatter_nth:
  "j < length y \<Longrightarrow>
   scatter tgt amt n y ! j = y ! j + (\<Sum>k<n. if tgt k = j then amt k else 0)"
proof (induction n)
  case 0
  then show ?case by (simp add: scatter_def)
next
  case (Suc n)
  have step: "scatter tgt amt (Suc n) y
      = (scatter tgt amt n y)[tgt n := scatter tgt amt n y ! tgt n + amt n]"
    by (simp add: scatter_def)
  show ?case
    using Suc by (simp add: step nth_list_update)
qed

lemma timesVec_loop:
  assumes ok: "triplets_ok h M" and x: "nat (ncols M) \<le> length x" and y: "nat (nrows M) \<le> length y"
  shows "RAJA_forall (nnz M)
           (timesVec_body cfg (nrows M) (ncols M) (ibuf h (iRow M)) (ibuf h (jCol M))
              (dbuf h (vals M)) alpha x) y
         = Inr (scatter (\<lambda>k. nat (ibuf h (iRow M) ! k))
                  (\<lambda>k. alpha * x ! nat (ibuf h (jCol M) ! k) * dbuf h (vals M) ! k)
                  (nat (nnz M)) y)"
proof -
  let ?g = "\<lambda>k y. y[nat (ibuf h (iRow M) ! k) := y ! nat (ibuf h (iRow M) ! k)
                 + alpha * x ! nat (ibuf h (jCol M) ! k) * dbuf h (vals M) ! k]"
  have "RAJA_forall (nnz M)
           (timesVec_body cfg (nrows M) (ncols M) (ibuf h (iRow M)) (ibuf h (jCol M))
              (dbuf h (vals M)) alpha x) y
        = Inr (fold ?g [0..<nat (nnz M)] y) \<and> length (fold ?g [0..<nat (nnz M)] y) = length y"
  proof (rule RAJA_forall_pure [where I = "\<lambda>i z. length z = length y"])
    fix k and z :: "real list" assume k: "k < nat (nnz M)" and z: "length z = length y"
    note d = triplets_okD [OF ok k]
    have r: "ibuf h (iRow M) ! k < int (length z)" using d(5) y z by linarith
    have c: "ibuf h (jCol M) ! k < int (length x)" using d(7) x by linarith
    show "timesVec_body cfg (nrows M) (ncols M) (ibuf h (iRow M)) (ibuf h (jCol M))
              (dbuf h (vals M)) alpha x k z = Inr (?g k z) \<and> length (?g k z) = length y"
      using d r c z by (simp add: timesVec_body_def rd_nat atomic_add_nat)
  qed simp
  then show ?thesis by (simp add: scatter_def)
qed

lemma transTimesVec_loop:
  assumes ok: "triplets_ok h M" and x: "nat (nrows M) \<le> length x" and y: "nat (ncols M) \<le> length y"
  shows "RAJA_forall (nnz M)
           (transTimesVec_body cfg (nrows M) (ncols M) (ibuf h (iRow M)) (ibuf h (jCol M))
              (dbuf h (vals M)) alpha x) y
         = Inr (scatter (\<lambda>k. nat (ibuf h (jCol M) ! k))
                  (\<lambda>k. alpha * x ! nat (ibuf h (iRow M) ! k) * dbuf h (vals M) ! k)
                  (nat (nnz M)) y)"
proof -
  let ?g = "\<lambda>k y. y[nat (ibuf h (jCol M) ! k) := y ! nat (ibuf h (jCol M) ! k)
                 + alpha * x ! nat (ibuf h (iRow M) ! k) * dbuf h (vals M) ! k]"
  have "RAJA_forall (nnz M)
           (transTimesVec_body cfg (nrows M) (ncols M) (ibuf h (iRow M)) (ibuf h (jCol M))
              (dbuf h (vals M)) alpha x) y
        = Inr (fold ?g [0..<nat (nnz M)] y) \<and> length (fold ?g [0..<nat (nnz M)] y) = length y"
  proof (rule RAJA_forall_pure [where I = "\<lambda>i z. length z = length y"])
    fix k and z :: "real list" assume k: "k < nat (nnz M)" and z: "length z = length y"
    note d = triplets_okD [OF ok k]
    have c: "ibuf h (jCol M) ! k < int (length z)" using d(7) y z by linarith
    have r: "ibuf h (iRow M) ! k < int (length x)" using d(5) x by linarith
    show "transTimesVec_body cfg (nrows M) (ncols M) (ibuf h (iRow M)) (ibuf h (jCol M))
              (dbuf h (vals M)) alpha x k z = Inr (?g k z) \<and> length (?g k z) = length y"
      using d r c z by (simp add: transTimesVec_body_def rd_nat atomic_add_nat)
  qed simp
  then show ?thesis by (simp add: scatter_def)
qed


lemma timesVec_result:
  assumes ok: "triplets_ok h M" and x: "nat (ncols M) \<le> length x" and y: "nat (nrows M) \<le> length y"
  shows "timesVec cfg h M beta y alpha x
         = Inr (scatter (\<lambda>k. nat (ibuf h (iRow M) ! k))
                  (\<lambda>k. alpha * x ! nat (ibuf h (jCol M) ! k) * dbuf h (vals M) ! k)
                  (nat (nnz M))
                  (map (\<lambda>v. v * beta) (take (nat (nrows M)) y) @ drop (nat (nrows M)) y))"
proof -
  let ?y1 = "map (\<lambda>v. v * beta) (take (nat (nrows M)) y) @ drop (nat (nrows M)) y"
  have len: "nat (nrows M) \<le> length ?y1" using y by simp
  show ?thesis
    using scale_loop [OF y, of beta] timesVec_loop [OF ok x len, of cfg alpha]
    by (simp add: timesVec_def)
qed

lemma transTimesVec_result:
  assumes ok: "triplets_ok h M" and x: "nat (nrows M) \<le> length x" and y: "nat (ncols M) \<le> length y"
  shows "transTimesVec cfg h M beta y alpha x
         = Inr (scatter (\<lambda>k. nat (ibuf h (jCol M) ! k))
                  (\<lambda>k. alpha * x ! nat (ibuf h (iRow M) ! k) * dbuf h (vals M) ! k)
                  (nat (nnz M))
                  (map (\<lambda>v. v * beta) (take (nat (ncols M)) y) @ drop (nat (ncols M)) y))"
proof -
  let ?y1 = "map (\<lambda>v. v * beta) (take (nat (ncols M)) y) @ drop (nat (ncols M)) y"
  have len: "nat (ncols M) \<le> length ?y1" using y by simp
  show ?thesis
    using scale_loop [OF y, of beta] transTimesVec_loop [OF ok x len, of cfg alpha]
    by (simp add: transTimesVec_def)
qed

lemma scaled_nth:
  "j < length y \<Longrightarrow>
   (map (\<lambda>v. v * beta) (take n y) @ drop n y) ! j = (if j < n then y ! j * beta else y ! j)"
  by (simp add: nth_append)

lemma nat_eq_int_iff: "0 \<le> r \<Longrightarrow> nat r = i \<longleftrightarrow> r = int i"
  by auto

lemma sum_if_nat_eq:
  assumes "\<And>k. k < n \<Longrightarrow> 0 \<le> r k"
  shows "(\<Sum>k<n. if nat (r k) = i then f k else (0::real)) = (\<Sum>k<n. if r k = int i then f k else 0)"
  by (rule sum.cong) (use assms in \<open>auto simp add: nat_eq_int_iff\<close>)

text \<open>
  C4. For a well-formed matrix, \<open>x\<close> of length \<open>cols\<close> and \<open>y\<close> of length \<open>rows\<close>,
  \<open>timesVec\<close> returns the vector whose entry \<open>i\<close> is \<open>y[i]\<close> scaled by \<open>beta\<close> plus
  \<open>alpha \<cdot> x[col[k]] \<cdot> value[k]\<close> for every triplet index \<open>k\<close> with \<open>row[k] = i\<close>;
  \<open>transTimesVec\<close> is the same with the roles of \<open>row\<close> and \<open>col\<close> swapped. On the
  \<open>2 \<times> 3\<close> matrix with triplets \<open>(0,0,2), (0,2,3), (1,1,4)\<close>, \<open>beta = 0\<close>, \<open>alpha = 1\<close>:
  \<open>timesVec\<close> with \<open>x = [1,1,1]\<close> gives \<open>[5,4]\<close>, \<open>transTimesVec\<close> with \<open>x = [1,1]\<close>
  gives \<open>[2,4,3]\<close>.
\<close>

theorem timesVec_transTimesVec_scatter:
  assumes ok: "triplets_ok h M"
    and x: "length x = nat (ncols M)" and y: "length y = nat (nrows M)"
    and u: "length u = nat (nrows M)" and w: "length w = nat (ncols M)"
  shows "timesVec cfg h M beta y alpha x
           = Inr (map (\<lambda>i. y ! i * beta
                    + (\<Sum>k<nat (nnz M). if ibuf h (iRow M) ! k = int i
                         then alpha * x ! nat (ibuf h (jCol M) ! k) * dbuf h (vals M) ! k else 0))
                  [0..<nat (nrows M)])
       \<and> transTimesVec cfg h M beta w alpha u
           = Inr (map (\<lambda>j. w ! j * beta
                    + (\<Sum>k<nat (nnz M). if ibuf h (jCol M) ! k = int j
                         then alpha * u ! nat (ibuf h (iRow M) ! k) * dbuf h (vals M) ! k else 0))
                  [0..<nat (ncols M)])
       \<and> timesVec cfg heap_A23 A23 0 [y0, y1] 1 [1, 1, 1] = Inr [5, 4]
       \<and> transTimesVec cfg heap_A23 A23 0 [w0, w1, w2] 1 [1, 1] = Inr [2, 4, 3]"
proof -
  have 1: "timesVec cfg h M beta y alpha x
           = Inr (map (\<lambda>i. y ! i * beta
                    + (\<Sum>k<nat (nnz M). if ibuf h (iRow M) ! k = int i
                         then alpha * x ! nat (ibuf h (jCol M) ! k) * dbuf h (vals M) ! k else 0))
                  [0..<nat (nrows M)])"
    unfolding timesVec_result [OF ok, of x y cfg beta alpha, simplified x y, simplified]
    using y by (auto simp add: list_eq_iff_nth_eq scatter_nth sum_if_nat_eq [OF triplets_okD(4) [OF ok]])
  have 2: "transTimesVec cfg h M beta w alpha u
           = Inr (map (\<lambda>j. w ! j * beta
                    + (\<Sum>k<nat (nnz M). if ibuf h (jCol M) ! k = int j
                         then alpha * u ! nat (ibuf h (iRow M) ! k) * dbuf h (vals M) ! k else 0))
                  [0..<nat (ncols M)])"
    unfolding transTimesVec_result [OF ok, of u w cfg beta alpha, simplified u w, simplified]
    using w by (auto simp add: list_eq_iff_nth_eq scatter_nth sum_if_nat_eq [OF triplets_okD(6) [OF ok]])
  have 3: "timesVec cfg heap_A23 A23 0 [y0, y1] 1 [1, 1, 1] = Inr [5, 4]"
    by (simp add: timesVec_def RAJA_forall_def heap_A23_def A23_def timesVec_body_def
        scale_body_def atomic_add_def c_assert_def rd_def wr_def upt_rec numeral_eq_Suc)
  have 4: "transTimesVec cfg heap_A23 A23 0 [w0, w1, w2] 1 [1, 1] = Inr [2, 4, 3]"
    by (simp add: transTimesVec_def RAJA_forall_def heap_A23_def A23_def transTimesVec_body_def
        scale_body_def atomic_add_def c_assert_def rd_def wr_def upt_rec numeral_eq_Suc)
  show ?thesis using 1 2 3 4 by simp
qed

lemma triplets_ok_A23: "triplets_ok heap_A23 A23"
  by (simp add: triplets_ok_def heap_A23_def A23_def)

theorem timesVec_transTimesVec_scatter_witness:
  "triplets_ok heap_A23 A23
   \<and> timesVec release_build heap_A23 A23 2 [7, 9] 3 [1, 0, 2] = Inr [38, 18]
   \<and> transTimesVec release_build heap_A23 A23 2 [7, 9, 8] 3 [1, 2] = Inr [20, 42, 25]"
proof -
  have ok: "triplets_ok heap_A23 A23"
    by (rule triplets_ok_A23)
  have "length [1, 0, 2 :: real] = nat (ncols A23)" "length [7, 9 :: real] = nat (nrows A23)"
       "length [1, 2 :: real] = nat (nrows A23)" "length [7, 9, 8 :: real] = nat (ncols A23)"
    by (simp_all add: A23_def)
  from timesVec_transTimesVec_scatter [OF ok this, of release_build 2 3]
  show ?thesis using ok
    by (simp add: heap_A23_def A23_def upt_rec numeral_eq_Suc)
qed


text \<open>
  C10. For a well-formed matrix and vectors that hold at least \<open>cols\<close> and \<open>rows\<close>
  entries, \<open>timesVec\<close> succeeds; an entry \<open>y[i]\<close>, \<open>i < rows\<close>, whose index is the row
  of no stored triplet ends as \<open>beta\<close> times its old value; no entry of \<open>y\<close> at or
  beyond \<open>rows\<close> changes; and with \<open>nnz = 0\<close> the call is the pointwise scaling of
  the first \<open>rows\<close> entries.
\<close>

theorem timesVec_untouched_rows:
  assumes ok: "triplets_ok h M"
    and x: "nat (ncols M) \<le> length x" and y: "nat (nrows M) \<le> length y"
  shows "\<exists>y'. timesVec cfg h M beta y alpha x = Inr y' \<and> length y' = length y
           \<and> (\<forall>i<nat (nrows M). int i \<notin> set (ibuf h (iRow M)) \<longrightarrow> y' ! i = beta * y ! i)
           \<and> (\<forall>i. nat (nrows M) \<le> i \<and> i < length y \<longrightarrow> y' ! i = y ! i)
           \<and> (nnz M = 0 \<longrightarrow>
                y' = map (\<lambda>v. beta * v) (take (nat (nrows M)) y) @ drop (nat (nrows M)) y)"
proof -
  let ?tgt = "\<lambda>k. nat (ibuf h (iRow M) ! k)"
  let ?amt = "\<lambda>k. alpha * x ! nat (ibuf h (jCol M) ! k) * dbuf h (vals M) ! k"
  let ?y1 = "map (\<lambda>v. v * beta) (take (nat (nrows M)) y) @ drop (nat (nrows M)) y"
  let ?y' = "scatter ?tgt ?amt (nat (nnz M)) ?y1"
  have res: "timesVec cfg h M beta y alpha x = Inr ?y'"
    by (rule timesVec_result [OF ok x y])
  have len: "length ?y' = length y" by simp
  have nth: "?y' ! i = (if i < nat (nrows M) then y ! i * beta else y ! i)
              + (\<Sum>k<nat (nnz M). if ibuf h (iRow M) ! k = int i then ?amt k else 0)"
    if "i < length y" for i
    using that by (simp add: scatter_nth scaled_nth sum_if_nat_eq [OF triplets_okD(4) [OF ok]])
  have a: "?y' ! i = beta * y ! i" if i: "i < nat (nrows M)" and no: "int i \<notin> set (ibuf h (iRow M))" for i
  proof -
    have "ibuf h (iRow M) ! k \<noteq> int i" if "k < nat (nnz M)" for k
      using no triplets_okD(1) [OF ok that] nth_mem by metis
    then have "(\<Sum>k<nat (nnz M). if ibuf h (iRow M) ! k = int i then ?amt k else 0) = 0"
      by (intro sum.neutral) simp
    then show ?thesis using nth [of i] i y by simp
  qed
  have b: "?y' ! i = y ! i" if i: "nat (nrows M) \<le> i" "i < length y" for i
  proof -
    have "ibuf h (iRow M) ! k \<noteq> int i" if "k < nat (nnz M)" for k
      using triplets_okD(5) [OF ok that] i by linarith
    then have "(\<Sum>k<nat (nnz M). if ibuf h (iRow M) ! k = int i then ?amt k else 0) = 0"
      by (intro sum.neutral) simp
    then show ?thesis using nth [of i] i by simp
  qed
  have c: "?y' = map (\<lambda>v. beta * v) (take (nat (nrows M)) y) @ drop (nat (nrows M)) y" if "nnz M = 0"
    using that by (simp add: scatter_def mult.commute)
  show ?thesis using res len a b c by blast
qed

theorem timesVec_untouched_rows_witness:
  "triplets_ok heap_B33 B33 \<and> nat (ncols B33) \<le> length [1, 1, 1 :: real]
   \<and> nat (nrows B33) \<le> length [7, 9, 8, 6 :: real]
   \<and> (1::nat) < nat (nrows B33) \<and> int 1 \<notin> set (ibuf heap_B33 (iRow B33))
   \<and> (\<exists>y'. timesVec release_build heap_B33 B33 2 [7, 9, 8, 6] 1 [1, 1, 1] = Inr y'
          \<and> y' ! 1 = 2 * 9 \<and> y' ! 3 = 6)"
proof -
  have ok: "triplets_ok heap_B33 B33"
    by (simp add: triplets_ok_def heap_B33_def B33_def)
  have x: "nat (ncols B33) \<le> length [1, 1, 1 :: real]" by (simp add: B33_def)
  have y: "nat (nrows B33) \<le> length [7, 9, 8, 6 :: real]" by (simp add: B33_def)
  have i: "(1::nat) < nat (nrows B33)" "int 1 \<notin> set (ibuf heap_B33 (iRow B33))"
    by (simp_all add: heap_B33_def B33_def)
  obtain y' where y': "timesVec release_build heap_B33 B33 2 [7, 9, 8, 6] 1 [1, 1, 1] = Inr y'"
    "\<forall>i<nat (nrows B33). int i \<notin> set (ibuf heap_B33 (iRow B33)) \<longrightarrow> y' ! i = 2 * [7, 9, 8, 6] ! i"
    "\<forall>i. nat (nrows B33) \<le> i \<and> i < length [7, 9, 8, 6 :: real] \<longrightarrow> y' ! i = [7, 9, 8, 6] ! i"
    using timesVec_untouched_rows [OF ok x y, of release_build 2 1] by blast
  have "y' ! 1 = 2 * 9" using y'(2) i by fastforce
  moreover have "y' ! 3 = 6" using y'(3) [rule_format, of 3] by (simp add: B33_def)
  ultimately show ?thesis using ok x y i y'(1) by blast
qed

lemma dotprod_scatter:
  assumes "length u = length y" and "\<And>k. k < n \<Longrightarrow> tgt k < length y"
  shows "dotprod u (scatter tgt amt n y) = dotprod u y + (\<Sum>k<n. u ! tgt k * amt k)"
proof -
  have "dotprod u (scatter tgt amt n y)
        = (\<Sum>i<length u. u ! i * (y ! i + (\<Sum>k<n. if tgt k = i then amt k else 0)))"
    unfolding dotprod_def by (rule sum.cong) (simp_all add: scatter_nth assms(1))
  also have "\<dots> = dotprod u y + (\<Sum>i<length u. \<Sum>k<n. if tgt k = i then u ! i * amt k else 0)"
    unfolding dotprod_def
    by (simp add: distrib_left sum.distrib sum_distrib_left if_distrib [of "\<lambda>z. _ * z"] cong: if_cong)
  also have "(\<Sum>i<length u. \<Sum>k<n. if tgt k = i then u ! i * amt k else 0)
             = (\<Sum>k<n. \<Sum>i<length u. if tgt k = i then u ! i * amt k else 0)"
    by (rule sum.swap)
  also have "\<dots> = (\<Sum>k<n. u ! tgt k * amt k)"
  proof (rule sum.cong)
    fix k assume "k \<in> {..<n}"
    then have "tgt k \<in> {..<length u}" using assms by simp
    then show "(\<Sum>i<length u. if tgt k = i then u ! i * amt k else 0) = u ! tgt k * amt k"
      by (simp add: sum.delta')
  qed simp
  finally show ?thesis .
qed

lemma dotprod_zero: "length u = length y \<Longrightarrow> dotprod u (map (\<lambda>v. 0) y) = 0"
  by (simp add: dotprod_def)

text \<open>
  C8. For a well-formed matrix, \<open>x\<close> of length \<open>cols\<close> and \<open>y\<close> of length \<open>rows\<close>: with
  \<open>alpha = 1\<close> and \<open>beta = 0\<close>, \<open>timesVec\<close> returns \<open>A x\<close>, \<open>transTimesVec\<close> returns
  \<open>A\<^sup>T y\<close>, and the inner product of \<open>y\<close> with \<open>A x\<close> equals the inner product of \<open>x\<close>
  with \<open>A\<^sup>T y\<close>, exactly, over the reals.
\<close>

theorem timesVec_transTimesVec_adjoint:
  assumes ok: "triplets_ok h M"
    and x: "length x = nat (ncols M)" and y: "length y = nat (nrows M)"
    and x0: "length x0 = nat (ncols M)" and y0: "length y0 = nat (nrows M)"
  shows "\<exists>Ax ATy. timesVec cfg h M 0 y0 1 x = Inr Ax
           \<and> transTimesVec cfg h M 0 x0 1 y = Inr ATy
           \<and> dotprod y Ax = dotprod x ATy"
proof -
  let ?r = "\<lambda>k. nat (ibuf h (iRow M) ! k)" and ?c = "\<lambda>k. nat (ibuf h (jCol M) ! k)"
  let ?v = "\<lambda>k. dbuf h (vals M) ! k"
  let ?Ax = "scatter ?r (\<lambda>k. 1 * x ! ?c k * ?v k) (nat (nnz M)) (map (\<lambda>v. v * 0) y0)"
  let ?ATy = "scatter ?c (\<lambda>k. 1 * y ! ?r k * ?v k) (nat (nnz M)) (map (\<lambda>v. v * 0) x0)"
  have 1: "timesVec cfg h M 0 y0 1 x = Inr ?Ax"
    using timesVec_result [OF ok, of x y0 cfg 0 1] x y0 by simp
  have 2: "transTimesVec cfg h M 0 x0 1 y = Inr ?ATy"
    using transTimesVec_result [OF ok, of y x0 cfg 0 1] y x0 by simp
  have rb: "?r k < length (map (\<lambda>v. v * 0) y0)" if "k < nat (nnz M)" for k
    using triplets_okD(4,5) [OF ok that] y0 by simp
  have cb: "?c k < length (map (\<lambda>v. v * 0) x0)" if "k < nat (nnz M)" for k
    using triplets_okD(6,7) [OF ok that] x0 by simp
  have "dotprod y ?Ax = (\<Sum>k<nat (nnz M). y ! ?r k * (1 * x ! ?c k * ?v k))"
    using dotprod_scatter [of y "map (\<lambda>v. v * 0) y0" "nat (nnz M)" ?r, OF _ rb] y y0
    by (simp add: dotprod_zero)
  moreover have "dotprod x ?ATy = (\<Sum>k<nat (nnz M). x ! ?c k * (1 * y ! ?r k * ?v k))"
    using dotprod_scatter [of x "map (\<lambda>v. v * 0) x0" "nat (nnz M)" ?c, OF _ cb] x x0
    by (simp add: dotprod_zero)
  ultimately have "dotprod y ?Ax = dotprod x ?ATy"
    by (simp add: mult.assoc mult.left_commute)
  with 1 2 show ?thesis by blast
qed

theorem timesVec_transTimesVec_adjoint_witness:
  "triplets_ok heap_A23 A23
   \<and> timesVec release_build heap_A23 A23 0 [0, 0] 1 [1, 2, 3] = Inr [11, 8]
   \<and> transTimesVec release_build heap_A23 A23 0 [0, 0, 0] 1 [5, 7] = Inr [10, 28, 15]
   \<and> dotprod [5, 7] [11, 8] = dotprod [1, 2, 3] [10, 28, 15]"
proof -
  have len: "length [1, 2, 3 :: real] = nat (ncols A23)" "length [5, 7 :: real] = nat (nrows A23)"
       "length [0, 0, 0 :: real] = nat (ncols A23)" "length [0, 0 :: real] = nat (nrows A23)"
    by (simp_all add: A23_def)
  have 1: "timesVec release_build heap_A23 A23 0 [0, 0] 1 [1, 2, 3] = Inr [11, 8]"
    by (simp add: timesVec_def RAJA_forall_def heap_A23_def A23_def timesVec_body_def
        scale_body_def atomic_add_def c_assert_def rd_def wr_def upt_rec numeral_eq_Suc)
  have 2: "transTimesVec release_build heap_A23 A23 0 [0, 0, 0] 1 [5, 7] = Inr [10, 28, 15]"
    by (simp add: transTimesVec_def RAJA_forall_def heap_A23_def A23_def transTimesVec_body_def
        scale_body_def atomic_add_def c_assert_def rd_def wr_def upt_rec numeral_eq_Suc)
  from timesVec_transTimesVec_adjoint [OF triplets_ok_A23 len, of release_build]
  show ?thesis using triplets_ok_A23 1 2 by simp
qed

subsection \<open>The symmetric product\<close>

text \<open>
  C1. On the symmetric \<open>2 \<times> 2\<close> matrix with upper-triangle triplets
  \<open>(0,0,1), (0,1,2), (1,1,3)\<close>, \<open>x = [1,1]\<close>, \<open>beta = 0\<close>, \<open>alpha = 1\<close>, the code returns
  \<open>[5,3]\<close>: the mirrored contribution of the triplet \<open>(0,1,2)\<close> is added through the
  reference to \<open>y[0]\<close>, not into \<open>y[1]\<close>. The full symmetric product, which the
  claim states, is \<open>[3,5]\<close>.
\<close>

theorem sym_timesVec_mirror_added_to_row:
  "sym_timesVec cfg heap_S22 S22 0 [y0, y1] 1 [1, 1] = Inr [5, 3]
   \<and> spec_sym_timesVec heap_S22 S22 0 [y0, y1] 1 [1, 1] = [3, 5]"
proof -
  have "sym_timesVec cfg heap_S22 S22 0 [y0, y1] 1 [1, 1] = Inr [5, 3]"
    by (simp add: sym_timesVec_def RAJA_forall_def heap_S22_def S22_def sym_timesVec_body_def
        scale_body_def atomic_add_def c_assert_def rd_def wr_def upt_rec numeral_eq_Suc)
  moreover have "spec_sym_timesVec heap_S22 S22 0 [y0, y1] 1 [1, 1] = [3, 5]"
    by (simp add: spec_sym_timesVec_def heap_S22_def S22_def spec_sym_timesVec_body_def
        upt_rec numeral_eq_Suc)
  ultimately show ?thesis by simp
qed

subsection \<open>Insertion of the transpose into a dense matrix\<close>

text \<open>
  C2. The symmetric \<open>1 \<times> 1\<close> matrix with the triplet \<open>(0,0,1)\<close>, added with
  \<open>row_start = 0\<close>, \<open>col_start = 1\<close>, \<open>alpha = 1\<close> into a \<open>2 \<times> 2\<close> matrix of zeros. Every
  assertion of the symmetric override holds, and it adds to the entry in row
  \<open>c + col_start = 1\<close>, column \<open>r + row_start = 0\<close>, below the diagonal. The function of
  the general class adds to row \<open>c + row_start = 0\<close>, column \<open>r + col_start = 1\<close>, as the
  claim states for both.
\<close>

theorem sym_transAdd_swaps_offsets:
  "sym_transAddToSymDenseMatrixUpperTriangle cfg heap_S11 S11 0 1 1 W22
     = Inr (W22\<lparr>local_buffer := [0, 0, 1, 0]\<rparr>)
   \<and> transAddToSymDenseMatrixUpperTriangle cfg heap_S11 S11 0 1 1 W22
     = Inr (W22\<lparr>local_buffer := [0, 1, 0, 0]\<rparr>)"
  by (simp add: sym_transAddToSymDenseMatrixUpperTriangle_def
      transAddToSymDenseMatrixUpperTriangle_def sym_transAdd_body_def transAdd_body_def
      heap_S11_def S11_def W22_def RAJA_forall_def view_add_def c_assert_def deep_assert_def
      rd_def wr_def)

subsection \<open>The host mirror\<close>

lemma constructor_cases:
  assumes "new_hiopMatrixRajaSparseTriplet cfg h rows cols nnz0 memspace = Inr (M, h')"
  obtains
    (aliased) "mem_space M \<noteq> ''DEVICE''"
      "iRow M = brk h" "jCol M = Suc (brk h)" "vals M = Suc (Suc (brk h))"
      "iRow_host M = brk h" "jCol_host M = Suc (brk h)" "values_host M = Suc (Suc (brk h))"
      "brk h' = brk h + 3"
  | (mirrored) "mem_space M = ''DEVICE''"
      "iRow M = brk h" "jCol M = brk h + 1" "vals M = brk h + 2"
      "iRow_host M = brk h + 3" "jCol_host M = brk h + 4" "values_host M = brk h + 5"
      "brk h' = brk h + 6"
      "space_of h' (brk h) = ''DEVICE''" "space_of h' (brk h + 1) = ''DEVICE''"
      "space_of h' (brk h + 2) = ''DEVICE''" "space_of h' (brk h + 3) = ''HOST''"
      "space_of h' (brk h + 4) = ''HOST''" "space_of h' (brk h + 5) = ''HOST''"
      "mirror_sized h' M"
  using assms
  unfolding new_hiopMatrixRajaSparseTriplet_def Let_def allocate_int_def allocate_real_def
    getAllocator_def bindE_def mirror_sized_def
  by (auto split: if_splits sum.splits)

lemma copyToDev_mirrored:
  assumes d: "distinct [iRow M, jCol M, iRow_host M, jCol_host M]" "vals M \<noteq> values_host M"
    and m: "mem_space M = ''DEVICE''" and sz: "mirror_sized g M"
  shows "\<exists>g'. copyToDev g M = Inr g'
           \<and> ibuf g' (iRow M) = ibuf g (iRow_host M)
           \<and> ibuf g' (jCol M) = ibuf g (jCol_host M)
           \<and> dbuf g' (vals M) = dbuf g (values_host M)
           \<and> ibuf g' (iRow_host M) = ibuf g (iRow_host M)
           \<and> ibuf g' (jCol_host M) = ibuf g (jCol_host M)
           \<and> dbuf g' (values_host M) = dbuf g (values_host M)"
  using assms by (simp add: copyToDev_def copy_int_def copy_real_def mirror_sized_def)

lemma copyFromDev_mirrored:
  assumes d: "distinct [iRow M, jCol M, iRow_host M, jCol_host M]" "vals M \<noteq> values_host M"
    and m: "mem_space M = ''DEVICE''" and sz: "mirror_sized g M"
  shows "\<exists>g'. copyFromDev g M = Inr g'
           \<and> ibuf g' (iRow_host M) = ibuf g (iRow M)
           \<and> ibuf g' (jCol_host M) = ibuf g (jCol M)
           \<and> dbuf g' (values_host M) = dbuf g (vals M)
           \<and> ibuf g' (iRow M) = ibuf g (iRow M)
           \<and> ibuf g' (jCol M) = ibuf g (jCol M)
           \<and> dbuf g' (vals M) = dbuf g (vals M)"
  using assms by (simp add: copyFromDev_def copy_int_def copy_real_def mirror_sized_def)

lemma constructor_host_only:
  assumes "new_hiopMatrixRajaSparseTriplet cfg h rows cols nnz0 memspace = Inr (M, h')"
    and "\<not> use_gpu cfg"
  shows "mem_space M = ''HOST''"
  using assms
  unfolding new_hiopMatrixRajaSparseTriplet_def Let_def allocate_int_def allocate_real_def
    getAllocator_def bindE_def
  by (auto split: if_splits sum.splits)

text \<open>
  C6, as the code has it. The constructor tests the memory space against
  \<^verbatim>\<open>"DEVICE"\<close>, not against the host space. When the memory space of the new matrix
  is not \<^verbatim>\<open>"DEVICE"\<close> (the host space, or any other space), the host-mirror pointers are
  the device pointers, three allocations were made in all, and \<open>copyToDev\<close> and
  \<open>copyFromDev\<close> change nothing in any heap. When it is \<^verbatim>\<open>"DEVICE"\<close>, the six arrays are
  six allocations, three in the device space and three in the host space, of equal
  sizes, and on every heap where the sizes agree \<open>copyToDev\<close> makes the three device
  arrays equal to the host arrays and \<open>copyFromDev\<close> the converse. In a build without
  \<^verbatim>\<open>HIOP_USE_GPU\<close> the memory space of the new matrix is \<^verbatim>\<open>"HOST"\<close>, whatever space was
  asked for.
\<close>

theorem host_mirror_only_for_device_space:
  assumes new: "new_hiopMatrixRajaSparseTriplet cfg h rows cols nnz0 memspace = Inr (M, h')"
  shows "(mem_space M \<noteq> ''DEVICE'' \<longrightarrow>
            iRow_host M = iRow M \<and> jCol_host M = jCol M \<and> values_host M = vals M
            \<and> brk h' = brk h + 3
            \<and> (\<forall>g. copyToDev g M = Inr g \<and> copyFromDev g M = Inr g))
       \<and> (mem_space M = ''DEVICE'' \<longrightarrow>
            distinct [iRow M, jCol M, vals M, iRow_host M, jCol_host M, values_host M]
            \<and> brk h' = brk h + 6
            \<and> map (space_of h') [iRow M, jCol M, vals M] = [''DEVICE'', ''DEVICE'', ''DEVICE'']
            \<and> map (space_of h') [iRow_host M, jCol_host M, values_host M]
                = [''HOST'', ''HOST'', ''HOST'']
            \<and> mirror_sized h' M
            \<and> (\<forall>g. mirror_sized g M \<longrightarrow>
                  (\<exists>g'. copyToDev g M = Inr g'
                     \<and> ibuf g' (iRow M) = ibuf g (iRow_host M)
                     \<and> ibuf g' (jCol M) = ibuf g (jCol_host M)
                     \<and> dbuf g' (vals M) = dbuf g (values_host M)
                     \<and> ibuf g' (iRow_host M) = ibuf g (iRow_host M)
                     \<and> ibuf g' (jCol_host M) = ibuf g (jCol_host M)
                     \<and> dbuf g' (values_host M) = dbuf g (values_host M))
                \<and> (\<exists>g'. copyFromDev g M = Inr g'
                     \<and> ibuf g' (iRow_host M) = ibuf g (iRow M)
                     \<and> ibuf g' (jCol_host M) = ibuf g (jCol M)
                     \<and> dbuf g' (values_host M) = dbuf g (vals M)
                     \<and> ibuf g' (iRow M) = ibuf g (iRow M)
                     \<and> ibuf g' (jCol M) = ibuf g (jCol M)
                     \<and> dbuf g' (vals M) = dbuf g (vals M))))
       \<and> (\<not> use_gpu cfg \<longrightarrow> mem_space M = ''HOST'')"
proof -
  have host: "\<not> use_gpu cfg \<longrightarrow> mem_space M = ''HOST''"
    using constructor_host_only [OF new] by blast
  from new show ?thesis
  proof (cases rule: constructor_cases)
    case aliased
    then show ?thesis using host by (simp add: copyToDev_def copyFromDev_def)
  next
    case mirrored
    have d: "distinct [iRow M, jCol M, iRow_host M, jCol_host M]" "vals M \<noteq> values_host M"
      using mirrored by simp_all
    have "distinct [iRow M, jCol M, vals M, iRow_host M, jCol_host M, values_host M]"
      using mirrored by simp
    moreover have "map (space_of h') [iRow M, jCol M, vals M] = [''DEVICE'', ''DEVICE'', ''DEVICE'']"
      "map (space_of h') [iRow_host M, jCol_host M, values_host M] = [''HOST'', ''HOST'', ''HOST'']"
      using mirrored by simp_all
    ultimately show ?thesis
      using mirrored(1,8,15) copyToDev_mirrored [OF d mirrored(1)]
        copyFromDev_mirrored [OF d mirrored(1)] host
      by blast
  qed
qed

theorem host_mirror_only_for_device_space_witness:
  "(case new_hiopMatrixRajaSparseTriplet gpu_build heap_gpu 2 3 3 ''DEVICE'' of
      Inl e \<Rightarrow> False
    | Inr (M, h') \<Rightarrow>
        mem_space M = ''DEVICE''
        \<and> distinct [iRow M, jCol M, vals M, iRow_host M, jCol_host M, values_host M]
        \<and> brk h' = brk heap_gpu + 6 \<and> mirror_sized h' M)
   \<and> (case new_hiopMatrixRajaSparseTriplet release_build heap_gpu 2 3 3 ''DEVICE'' of
        Inl e \<Rightarrow> False
      | Inr (M, h') \<Rightarrow>
          \<not> use_gpu release_build \<and> mem_space M = ''HOST''
          \<and> iRow_host M = iRow M \<and> jCol_host M = jCol M \<and> values_host M = vals M
          \<and> brk h' = brk heap_gpu + 3
          \<and> copyToDev h' M = Inr h' \<and> copyFromDev h' M = Inr h')"
proof -
  have "\<exists>M h'. new_hiopMatrixRajaSparseTriplet gpu_build heap_gpu 2 3 3 ''DEVICE'' = Inr (M, h')
          \<and> mem_space M = ''DEVICE''"
    by (simp add: new_hiopMatrixRajaSparseTriplet_def gpu_build_def heap_gpu_def getAllocator_def
        allocate_int_def allocate_real_def Let_def)
  then obtain M h' where new: "new_hiopMatrixRajaSparseTriplet gpu_build heap_gpu 2 3 3 ''DEVICE'' = Inr (M, h')"
    and dev: "mem_space M = ''DEVICE''" by blast
  have "\<exists>M h'. new_hiopMatrixRajaSparseTriplet release_build heap_gpu 2 3 3 ''DEVICE'' = Inr (M, h')"
    by (simp add: new_hiopMatrixRajaSparseTriplet_def release_build_def heap_gpu_def getAllocator_def
        allocate_int_def allocate_real_def Let_def)
  then obtain N k' where new2: "new_hiopMatrixRajaSparseTriplet release_build heap_gpu 2 3 3 ''DEVICE'' = Inr (N, k')"
    by blast
  have cpu: "\<not> use_gpu release_build" by (simp add: release_build_def)
  have host: "mem_space N = ''HOST''"
    using host_mirror_only_for_device_space [OF new2] cpu by blast
  then have nd: "mem_space N \<noteq> ''DEVICE''" by simp
  from host_mirror_only_for_device_space [OF new] dev host_mirror_only_for_device_space [OF new2] nd host cpu
  show ?thesis by (simp add: new new2)
qed

text \<open>
  C6 as stated fails for a memory space that is neither the host nor the device: in a
  GPU build, a matrix created in unified memory (\<^verbatim>\<open>"UM"\<close>) has a memory space distinct
  from the host space, yet its host mirror is no allocation of its own and the two
  copies are no-ops.
\<close>

theorem host_mirror_unified_memory_counterexample:
  "case new_hiopMatrixRajaSparseTriplet gpu_build heap_gpu 2 3 3 ''UM'' of
     Inl e \<Rightarrow> False
   | Inr (M, h') \<Rightarrow>
       mem_space M \<noteq> ''HOST''
       \<and> iRow_host M = iRow M \<and> jCol_host M = jCol M \<and> values_host M = vals M
       \<and> brk h' = brk heap_gpu + 3
       \<and> copyToDev h' M = Inr h' \<and> copyFromDev h' M = Inr h'"
  by (simp add: new_hiopMatrixRajaSparseTriplet_def gpu_build_def heap_gpu_def getAllocator_def
      allocate_int_def allocate_real_def Let_def copyToDev_def copyFromDev_def)

subsection \<open>The row-start index\<close>

lemma seq_for_upt_inv:
  assumes step: "\<And>i s. a \<le> i \<Longrightarrow> i < b \<Longrightarrow> I i s \<Longrightarrow> \<exists>s'. f i s = Inr s' \<and> I (Suc i) s'"
    and init: "I a s0" and le: "a \<le> b"
  shows "\<exists>s. seq_for f [a..<b] s0 = Inr s \<and> I b s"
  using le step
proof (induction b)
  case 0
  then show ?case using init by simp
next
  case (Suc b)
  show ?case
  proof (cases "a = Suc b")
    case True
    then show ?thesis using init by simp
  next
    case False
    then have ab: "a \<le> b" using Suc.prems(1) by simp
    obtain s where s: "seq_for f [a..<b] s0 = Inr s" "I b s"
      using Suc.IH [OF ab] Suc.prems(2) by fastforce
    obtain s' where s': "f b s = Inr s'" "I (Suc b) s'"
      using Suc.prems(2) [of b s] ab s(2) by auto
    show ?thesis using ab s s' by (simp add: seq_for_append)
  qed
qed

lemma sorted_rows_below:
  "sorted xs \<Longrightarrow> k < length xs \<Longrightarrow> (int k < rows_below xs i) = (xs ! k < i)"
proof (induction xs arbitrary: k)
  case Nil
  then show ?case by simp
next
  case (Cons x xs)
  have ge: "\<forall>y\<in>set xs. x \<le> y" and srt: "sorted xs" using Cons.prems(1) by simp_all
  show ?case
  proof (cases "x < i")
    case True
    show ?thesis
    proof (cases k)
      case 0
      then show ?thesis using True by (simp add: rows_below_def)
    next
      case (Suc k')
      then have "k' < length xs" using Cons.prems(2) by simp
      from Cons.IH [OF srt this] show ?thesis using True Suc by (simp add: rows_below_def)
    qed
  next
    case False
    then have "filter (\<lambda>r. r < i) xs = []" using ge by (auto simp add: filter_empty_conv)
    moreover have "\<not> (x # xs) ! k < i"
      using False ge Cons.prems(2) by (cases k) (auto dest!: nth_mem [of _ xs])
    ultimately show ?thesis using False by (simp add: rows_below_def)
  qed
qed

lemma rows_below_le_length: "rows_below xs i \<le> int (length xs)"
  by (simp add: rows_below_def)

lemma rows_below_nonneg: "0 \<le> rows_below xs i"
  by (simp add: rows_below_def)

lemma rows_below_mono: "i \<le> j \<Longrightarrow> rows_below xs i \<le> rows_below xs j"
proof (induction xs)
  case Nil
  then show ?case by (simp add: rows_below_def)
next
  case (Cons x xs)
  then show ?case by (auto simp add: rows_below_def)
qed

lemma rows_below_none: "\<forall>r\<in>set xs. i \<le> r \<Longrightarrow> rows_below xs i = 0"
  by (auto simp add: rows_below_def filter_empty_conv)

lemma rows_below_all: "\<forall>r\<in>set xs. r < i \<Longrightarrow> rows_below xs i = int (length xs)"
  by (simp add: rows_below_def)


lemma wr_nat: "0 \<le> i \<Longrightarrow> i < int (length xs) \<Longrightarrow> wr xs i v = Inr (xs[nat i := v])"
  by (simp add: wr_def)

lemma ordering_check_ok:
  assumes adj: "\<And>k. 1 \<le> k \<Longrightarrow> k < nz \<Longrightarrow>
            irh ! nat (k - 1) \<le> irh ! nat k
            \<and> (irh ! nat (k - 1) = irh ! nat k \<longrightarrow> jch ! nat (k - 1) < jch ! nat k)"
    and len: "length irh = nat nz" "length jch = nat nz"
    and it: "0 \<le> it" "it < nz"
  shows "ordering_check cfg irh jch it = Inr ()"
proof (cases "deepchecks cfg \<and> \<not> ndebug cfg \<and> it \<ge> 1")
  case False
  then show ?thesis by (auto simp add: ordering_check_def)
next
  case True
  then have it1: "1 \<le> it" by simp
  have r1: "rd irh (it - 1) = Inr (irh ! nat (it - 1))" "rd irh it = Inr (irh ! nat it)"
    "rd jch (it - 1) = Inr (jch ! nat (it - 1))" "rd jch it = Inr (jch ! nat it)"
    using it it1 len by (simp_all add: rd_nat)
  show ?thesis using True adj [OF it1 it(2)] by (simp add: ordering_check_def r1)
qed

lemma row_scan_result:
  assumes srt: "sorted irh"
    and adj: "\<And>k. 1 \<le> k \<Longrightarrow> k < nz \<Longrightarrow>
            irh ! nat (k - 1) \<le> irh ! nat k
            \<and> (irh ! nat (k - 1) = irh ! nat k \<longrightarrow> jch ! nat (k - 1) < jch ! nat k)"
    and len: "length irh = nat nz" "length jch = nat nz"
    and i: "0 \<le> i" "i < int (length idx)"
    and lo: "rows_below irh (i - 1) \<le> it" and hi: "it \<le> rows_below irh i"
  shows "row_scan cfg nz irh jch i idx it
         = Inr (idx[nat i := idx ! nat i + (rows_below irh i - it)], rows_below irh i)"
  using i lo hi
proof (induction "nat (rows_below irh i - it)" arbitrary: it idx)
  case 0
  then have eq: "it = rows_below irh i" by simp
  have it0: "0 \<le> it" using eq rows_below_nonneg by simp
  have "\<not> (it < nz \<and> irh ! nat it = i - 1)"
  proof
    assume a: "it < nz \<and> irh ! nat it = i - 1"
    then have k: "nat it < length irh" using len it0 by simp
    have "(int (nat it) < rows_below irh i) = (irh ! nat it < i)"
      by (rule sorted_rows_below [OF srt k])
    then show False using a eq it0 by simp
  qed
  then have "row_scan cfg nz irh jch i idx it = Inr (idx, it)"
    using it0 len by (subst row_scan.simps) (auto simp add: rd_nat)
  then show ?case using eq by simp
next
  case (Suc m)
  then have lt: "it < rows_below irh i" by simp
  have it0: "0 \<le> it" using Suc.prems(3) rows_below_nonneg [of irh "i - 1"] by simp
  have itnz: "it < nz" using lt it0 rows_below_le_length [of irh i] len by (simp split: if_splits)
  have k: "nat it < length irh" using itnz it0 len by simp
  have "irh ! nat it < i"
    using sorted_rows_below [OF srt k, of i] lt it0 by simp
  moreover have "\<not> irh ! nat it < i - 1"
    using sorted_rows_below [OF srt k, of "i - 1"] Suc.prems(3) it0 by simp
  ultimately have r: "irh ! nat it = i - 1" by simp
  have oc: "ordering_check cfg irh jch it = Inr ()"
    by (rule ordering_check_ok [OF adj len it0 itnz])
  let ?idx' = "idx[nat i := idx ! nat i + 1]"
  have m: "m = nat (rows_below irh i - (it + 1))" using Suc.hyps(2) by simp
  have rec: "row_scan cfg nz irh jch i ?idx' (it + 1)
        = Inr (?idx'[nat i := ?idx' ! nat i + (rows_below irh i - (it + 1))], rows_below irh i)"
    using Suc.hyps(1) [OF m] Suc.prems lt by simp
  have upd: "?idx'[nat i := ?idx' ! nat i + (rows_below irh i - (it + 1))]
        = idx[nat i := idx ! nat i + (rows_below irh i - it)]"
    using Suc.prems(1,2) by simp
  have "row_scan cfg nz irh jch i idx it = row_scan cfg nz irh jch i ?idx' (it + 1)"
    using itnz it0 k r oc Suc.prems(1,2)
    by (subst row_scan.simps) (simp add: rd_nat wr_nat)
  then show ?case using rec upd by simp
qed


lemma row_starts_loop:
  assumes srt: "sorted irh"
    and adj: "\<And>k. 1 \<le> k \<Longrightarrow> k < nz \<Longrightarrow>
            irh ! nat (k - 1) \<le> irh ! nat k
            \<and> (irh ! nat (k - 1) = irh ! nat k \<longrightarrow> jch ! nat (k - 1) < jch ! nat k)"
    and len: "length irh = nat nz" "length jch = nat nz"
    and nonneg: "\<forall>r\<in>set irh. 0 \<le> r"
    and idx0: "length idx0 = Suc n" "idx0 ! 0 = 0"
  shows "\<exists>idx. seq_for (row_starts_body cfg nz irh jch) [1..<Suc n] (idx0, 0)
                 = Inr (idx, rows_below irh (int n))
           \<and> length idx = Suc n \<and> (\<forall>j\<le>n. idx ! j = rows_below irh (int j))"
proof -
  let ?I = "\<lambda>i s. case s of (idx, it) \<Rightarrow>
              length idx = Suc n \<and> it = rows_below irh (int i - 1)
              \<and> (\<forall>j<i. idx ! j = rows_below irh (int j))"
  have z: "rows_below irh 0 = 0" using nonneg by (rule rows_below_none)
  have "\<exists>s. seq_for (row_starts_body cfg nz irh jch) [1..<Suc n] (idx0, 0) = Inr s \<and> ?I (Suc n) s"
  proof (rule seq_for_upt_inv [where I = ?I])
    show "?I 1 (idx0, 0)" using idx0 z by simp
    show "1 \<le> Suc n" by simp
  next
    fix i :: nat and s :: "int list \<times> int"
    assume i: "1 \<le> i" "i < Suc n" and inv: "?I i s"
    obtain idx it where s: "s = (idx, it)" by (cases s)
    have l: "length idx = Suc n" and it: "it = rows_below irh (int i - 1)"
      and old: "\<forall>j<i. idx ! j = rows_below irh (int j)"
      using inv s by simp_all
    have "idx ! (i - 1) = rows_below irh (int (i - 1))" using old i by simp
    then have prev: "idx ! nat (int i - 1) = rows_below irh (int i - 1)"
      using i by (simp add: nat_diff_distrib of_nat_diff)
    let ?idx1 = "idx[i := rows_below irh (int i - 1)]"
    have r1: "rd idx (int i - 1) = Inr (rows_below irh (int i - 1))"
      using i l prev by (simp add: rd_def)
    have w1: "wr idx (int i) (rows_below irh (int i - 1)) = Inr ?idx1" using i l by simp
    have scan: "row_scan cfg nz irh jch (int i) ?idx1 it
          = Inr (?idx1[nat (int i) := ?idx1 ! nat (int i) + (rows_below irh (int i) - it)],
                 rows_below irh (int i))"
      by (rule row_scan_result [OF srt adj len])
         (use i l it in \<open>simp_all add: rows_below_mono\<close>)
    let ?idx2 = "idx[i := rows_below irh (int i)]"
    have idx2: "?idx1[nat (int i) := ?idx1 ! nat (int i) + (rows_below irh (int i) - it)] = ?idx2"
      using i l it by simp
    have scan2: "row_scan cfg nz irh jch (int i) ?idx1 it = Inr (?idx2, rows_below irh (int i))"
      using scan idx2 by simp
    have r2: "rd ?idx2 (int i) = Inr (rows_below irh (int i))" using i l by simp
    have "row_starts_body cfg nz irh jch i s = Inr (?idx2, rows_below irh (int i))"
      by (simp add: row_starts_body_def s r1 w1 scan2 r2)
    moreover have "?I (Suc i) (?idx2, rows_below irh (int i))"
      using l old i by (auto simp add: nth_list_update less_Suc_eq)
    ultimately show "\<exists>s'. row_starts_body cfg nz irh jch i s = Inr s' \<and> ?I (Suc i) s'" by blast
  qed
  then show ?thesis by (auto simp add: less_Suc_eq_le)
qed

lemma row_major_sortedD:
  assumes s: "row_major_sorted h M" and ok: "host_triplets_ok h M"
  shows "sorted (ibuf h (iRow_host M))"
    and "\<And>k. 1 \<le> k \<Longrightarrow> k < nnz M \<Longrightarrow>
           ibuf h (iRow_host M) ! nat (k - 1) \<le> ibuf h (iRow_host M) ! nat k
           \<and> (ibuf h (iRow_host M) ! nat (k - 1) = ibuf h (iRow_host M) ! nat k
                \<longrightarrow> ibuf h (jCol_host M) ! nat (k - 1) < ibuf h (jCol_host M) ! nat k)"
proof -
  let ?r = "ibuf h (iRow_host M)" and ?c = "ibuf h (jCol_host M)"
  have len: "length ?r = nat (nnz M)" "length ?c = nat (nnz M)"
    using ok by (simp_all add: host_triplets_ok_def)
  have lex: "?r ! a < ?r ! b \<or> (?r ! a = ?r ! b \<and> ?c ! a < ?c ! b)"
    if "a < b" "b < nat (nnz M)" for a b
    using s that len unfolding row_major_sorted_def sorted_wrt_iff_nth_less
    by (auto dest!: spec [of _ a] spec [of _ b])
  show "sorted ?r"
    unfolding sorted_iff_nth_mono_less using lex len by (metis less_imp_le order_refl)
  fix k :: int assume k: "1 \<le> k" "k < nnz M"
  have "nat (k - 1) < nat k" "nat k < nat (nnz M)" using k by simp_all
  from lex [OF this]
  show "?r ! nat (k - 1) \<le> ?r ! nat k \<and> (?r ! nat (k - 1) = ?r ! nat k \<longrightarrow> ?c ! nat (k - 1) < ?c ! nat k)"
    by auto
qed


lemma allocAndBuildRowStarts_result:
  assumes ok: "host_triplets_ok h M" and srt: "row_major_sorted h M" and pos: "0 < nrows M"
    and al: "''HOST'' \<in> set (allocators h)" "mem_space M \<in> set (allocators h)"
  shows "allocAndBuildRowStarts cfg h M
         = Inr (\<lparr>rsi_num_rows = nrows M, rsi_mem_space = mem_space M, rsi_idx_start = Suc (brk h)\<rparr>,
                h\<lparr>ibuf := (ibuf h)
                     (Suc (brk h) := map (\<lambda>i. rows_below (ibuf h (iRow_host M)) (int i))
                                       [0..<Suc (nat (nrows M))],
                      brk h := []),
                  space_of := (space_of h)(brk h := ''HOST'', Suc (brk h) := mem_space M),
                  brk := Suc (Suc (brk h))\<rparr>)"
proof -
  let ?irh = "ibuf h (iRow_host M)" and ?jch = "ibuf h (jCol_host M)"
  let ?n = "nat (nrows M)"
  let ?offs = "map (\<lambda>i. rows_below ?irh (int i)) [0..<Suc ?n]"
  let ?idx0 = "(map (fresh_int h) [0..<Suc ?n])[0 := 0]"
  have len: "length ?irh = nat (nnz M)" "length ?jch = nat (nnz M)"
    and nz: "0 \<le> nnz M" and ptr: "iRow_host M < brk h" "jCol_host M < brk h"
    and rows: "\<forall>r\<in>set ?irh. 0 \<le> r \<and> r < nrows M"
    using ok by (simp_all add: host_triplets_ok_def list_all_iff)
  have nonneg: "\<forall>r\<in>set ?irh. 0 \<le> r" using rows by simp
  obtain idx where idx: "seq_for (row_starts_body cfg (nnz M) ?irh ?jch) [1..<Suc ?n] (?idx0, 0)
                 = Inr (idx, rows_below ?irh (int ?n))"
      "length idx = Suc ?n" "\<forall>j\<le>?n. idx ! j = rows_below ?irh (int j)"
    using row_starts_loop [OF row_major_sortedD [OF srt ok] len nonneg, of ?idx0 ?n cfg]
    by auto
  have offs: "idx = ?offs"
    using idx(2,3) by (auto simp add: list_eq_iff_nth_eq nth_map_upt less_Suc_eq_le simp del: upt_Suc)
  have all: "rows_below ?irh (int ?n) = nnz M"
    using rows_below_all [of ?irh "int ?n"] rows pos len nz by simp
  have loop: "seq_for (row_starts_body cfg (nnz M) ?irh ?jch) [Suc 0..<Suc ?n] (?idx0, 0)
                 = Inr (?offs, nnz M)"
    using idx(1) offs all by (simp del: upt_Suc)
  have n1: "nat (nrows M + 1) = Suc ?n" using pos by simp
  show ?thesis
    using pos al ptr
    apply (simp add: allocAndBuildRowStarts_def new_RowStartsInfo_def getAllocator_def
        allocate_int_def Let_def n1 wr_def del: upt_Suc)
    apply (simp add: loop copy_int_def delete_RowStartsInfo_def deallocate_int_def del: upt_Suc)
    done
qed


lemma host_triplets_ok_R34: "host_triplets_ok heap_R34 R34"
  by (simp add: host_triplets_ok_def heap_R34_def R34_def)

lemma row_major_sorted_R34: "row_major_sorted heap_R34 R34"
  by (simp add: row_major_sorted_def heap_R34_def R34_def)

lemma offsets_R34:
  "allocAndBuildRowStarts cfg heap_R34 R34
   = Inr (\<lparr>rsi_num_rows = 3, rsi_mem_space = ''HOST'', rsi_idx_start = 4\<rparr>,
          heap_R34\<lparr>ibuf := (ibuf heap_R34)(4 := [0, 2, 3, 4], 3 := []),
                    space_of := (space_of heap_R34)(3 := ''HOST'', 4 := ''HOST''),
                    brk := 5\<rparr>)"
proof -
  have al: "''HOST'' \<in> set (allocators heap_R34)" "mem_space R34 \<in> set (allocators heap_R34)"
    by (simp_all add: heap_R34_def R34_def)
  have pos: "0 < nrows R34" by (simp add: R34_def)
  have b: "brk heap_R34 = 3" by (simp add: heap_R34_def)
  have m: "map (\<lambda>i. rows_below (ibuf heap_R34 (iRow_host R34)) (int i)) [0..<Suc (nat (nrows R34))]
           = [0, 2, 3, 4]"
    by (simp add: heap_R34_def R34_def rows_below_def upt_rec numeral_eq_Suc)
  show ?thesis
    unfolding allocAndBuildRowStarts_result [OF host_triplets_ok_R34 row_major_sorted_R34 pos al] m b
    by (simp add: R34_def eval_nat_numeral)
qed

lemma allocAndBuildRowStarts_no_rows:
  assumes al: "''HOST'' \<in> set (allocators h)" "mem_space M \<in> set (allocators h)"
    and zero: "nrows M = 0"
  shows "\<exists>rsi h'. allocAndBuildRowStarts cfg h M = Inr (rsi, h')
           \<and> rsi_idx_start rsi = Suc (brk h) \<and> brk h' = brk h + 2
           \<and> ibuf h' (rsi_idx_start rsi) = [fresh_int h 0]
           \<and> (\<forall>p<brk h. ibuf h' p = ibuf h p) \<and> dbuf h' = dbuf h"
  using al zero
  by (simp add: allocAndBuildRowStarts_def new_RowStartsInfo_def getAllocator_def allocate_int_def
      delete_RowStartsInfo_def deallocate_int_def c_assert_def Let_def)

text \<open>
  C7. For host triplets sorted by row and column whose rows lie in \<open>[0, nrows)\<close>, in a
  matrix with at least one row, \<open>allocAndBuildRowStarts\<close> succeeds and returns an index
  of \<open>nrows + 1\<close> offsets with \<open>offset[0] = 0\<close>, non-decreasing offsets,
  \<open>offset[nrows] = nnz\<close>, and the triplets of row \<open>i\<close> at exactly the positions
  \<open>offset[i] \<le> k < offset[i+1]\<close>. For a matrix with no rows it succeeds and returns an
  index that was allocated by the call, has one entry, and still holds what the fresh
  memory held: nothing was written to it; the allocations that existed before keep
  their contents. For the \<open>3\<close>-row matrix with triplets at
  \<open>(0,0), (0,1), (1,2), (2,0)\<close> the offsets are \<open>[0,2,3,4]\<close>.
\<close>

theorem row_starts_offsets:
  assumes al: "''HOST'' \<in> set (allocators h)" "mem_space M \<in> set (allocators h)"
  shows "(host_triplets_ok h M \<and> row_major_sorted h M \<and> 0 < nrows M \<longrightarrow>
          (\<exists>rsi h' off. allocAndBuildRowStarts cfg h M = Inr (rsi, h')
            \<and> off = ibuf h' (rsi_idx_start rsi)
            \<and> length off = nat (nrows M) + 1
            \<and> off ! 0 = 0
            \<and> (\<forall>i<nat (nrows M). off ! i \<le> off ! Suc i)
            \<and> off ! nat (nrows M) = nnz M
            \<and> (\<forall>i<nat (nrows M). \<forall>k<nat (nnz M).
                  (ibuf h (iRow_host M) ! k = int i) = (off ! i \<le> int k \<and> int k < off ! Suc i))))
       \<and> (nrows M = 0 \<longrightarrow>
          (\<exists>rsi h'. allocAndBuildRowStarts cfg h M = Inr (rsi, h')
            \<and> brk h \<le> rsi_idx_start rsi \<and> rsi_idx_start rsi < brk h'
            \<and> ibuf h' (rsi_idx_start rsi) = [fresh_int h 0]
            \<and> (\<forall>p<brk h. ibuf h' p = ibuf h p)))
       \<and> (case allocAndBuildRowStarts cfg heap_R34 R34 of
             Inl e \<Rightarrow> False
           | Inr (rsi, h') \<Rightarrow> ibuf h' (rsi_idx_start rsi) = [0, 2, 3, 4])"
proof (intro conjI impI)
  assume pre: "host_triplets_ok h M \<and> row_major_sorted h M \<and> 0 < nrows M"
  then have ok: "host_triplets_ok h M" and srt: "row_major_sorted h M" and pos: "0 < nrows M"
    by simp_all
  let ?irh = "ibuf h (iRow_host M)"
  let ?n = "nat (nrows M)"
  let ?off = "map (\<lambda>i. rows_below ?irh (int i)) [0..<Suc ?n]"
  have len: "length ?irh = nat (nnz M)" and nz: "0 \<le> nnz M"
    and rows: "\<forall>r\<in>set ?irh. 0 \<le> r \<and> r < nrows M"
    using ok by (simp_all add: host_triplets_ok_def list_all_iff)
  have sorted: "sorted ?irh" by (rule row_major_sortedD(1) [OF srt ok])
  have nth: "?off ! i = rows_below ?irh (int i)" if "i \<le> ?n" for i
    using that nth_map_upt [of i "Suc ?n" 0 "\<lambda>i. rows_below ?irh (int i)"] by simp
  have 0: "?off ! 0 = 0"
    using nth [of 0] rows_below_none [of ?irh 0] rows by simp
  have mono: "?off ! i \<le> ?off ! Suc i" if "i < ?n" for i
    using that nth [of i] nth [of "Suc i"] rows_below_mono [of "int i" "int (Suc i)" ?irh] by simp
  have last: "?off ! ?n = nnz M"
    using nth [of ?n] rows_below_all [of ?irh "int ?n"] rows pos len nz by simp
  have slice: "(?irh ! k = int i) = (?off ! i \<le> int k \<and> int k < ?off ! Suc i)"
    if "i < ?n" "k < nat (nnz M)" for i k
  proof -
    have k: "k < length ?irh" using that len by simp
    have "(int k < rows_below ?irh (int i)) = (?irh ! k < int i)"
      "(int k < rows_below ?irh (int i + 1)) = (?irh ! k < int i + 1)"
      by (rule sorted_rows_below [OF sorted k])+
    then show ?thesis using nth [of i] nth [of "Suc i"] that(1) by (auto simp add: add.commute)
  qed
  have "length ?off = nat (nrows M) + 1" by simp
  with 0 mono last slice
  show "\<exists>rsi h' off. allocAndBuildRowStarts cfg h M = Inr (rsi, h')
            \<and> off = ibuf h' (rsi_idx_start rsi)
            \<and> length off = nat (nrows M) + 1
            \<and> off ! 0 = 0
            \<and> (\<forall>i<nat (nrows M). off ! i \<le> off ! Suc i)
            \<and> off ! nat (nrows M) = nnz M
            \<and> (\<forall>i<nat (nrows M). \<forall>k<nat (nnz M).
                  (ibuf h (iRow_host M) ! k = int i) = (off ! i \<le> int k \<and> int k < off ! Suc i))"
    unfolding allocAndBuildRowStarts_result [OF ok srt pos al]
    by (simp del: upt_Suc)
next
  assume zero: "nrows M = 0"
  obtain rsi h' where "allocAndBuildRowStarts cfg h M = Inr (rsi, h')"
    "rsi_idx_start rsi = Suc (brk h)" "brk h' = brk h + 2"
    "ibuf h' (rsi_idx_start rsi) = [fresh_int h 0]" "\<forall>p<brk h. ibuf h' p = ibuf h p"
    using allocAndBuildRowStarts_no_rows [OF al zero, of cfg] by blast
  then show "\<exists>rsi h'. allocAndBuildRowStarts cfg h M = Inr (rsi, h')
            \<and> brk h \<le> rsi_idx_start rsi \<and> rsi_idx_start rsi < brk h'
            \<and> ibuf h' (rsi_idx_start rsi) = [fresh_int h 0]
            \<and> (\<forall>p<brk h. ibuf h' p = ibuf h p)"
    by simp
next
  show "case allocAndBuildRowStarts cfg heap_R34 R34 of
             Inl e \<Rightarrow> False
           | Inr (rsi, h') \<Rightarrow> ibuf h' (rsi_idx_start rsi) = [0, 2, 3, 4]"
    by (simp add: offsets_R34)
qed

theorem row_starts_offsets_witness:
  "host_triplets_ok heap_R34 R34 \<and> row_major_sorted heap_R34 R34 \<and> 0 < nrows R34
   \<and> (\<exists>rsi h'. allocAndBuildRowStarts debug_build heap_R34 R34 = Inr (rsi, h')
         \<and> length (ibuf h' (rsi_idx_start rsi)) = 4
         \<and> ibuf h' (rsi_idx_start rsi) ! 0 = 0
         \<and> ibuf h' (rsi_idx_start rsi) ! 3 = 4)
   \<and> nrows E00 = 0
   \<and> (\<exists>rsi h'. allocAndBuildRowStarts release_build heap_E00 E00 = Inr (rsi, h')
         \<and> brk heap_E00 \<le> rsi_idx_start rsi
         \<and> ibuf h' (rsi_idx_start rsi) = [fresh_int heap_E00 0])"
proof -
  have al: "''HOST'' \<in> set (allocators heap_R34)" "mem_space R34 \<in> set (allocators heap_R34)"
    by (simp_all add: heap_R34_def R34_def)
  have al0: "''HOST'' \<in> set (allocators heap_E00)" "mem_space E00 \<in> set (allocators heap_E00)"
    by (simp_all add: heap_E00_def E00_def)
  have pos: "0 < nrows R34" by (simp add: R34_def)
  have zero: "nrows E00 = 0" by (simp add: E00_def)
  have pre: "host_triplets_ok heap_R34 R34 \<and> row_major_sorted heap_R34 R34 \<and> 0 < nrows R34"
    using host_triplets_ok_R34 row_major_sorted_R34 pos by simp
  from row_starts_offsets [OF al, of debug_build, THEN conjunct1, rule_format, OF pre]
  obtain rsi h' where a: "allocAndBuildRowStarts debug_build heap_R34 R34 = Inr (rsi, h')"
    "length (ibuf h' (rsi_idx_start rsi)) = nat (nrows R34) + 1"
    "ibuf h' (rsi_idx_start rsi) ! 0 = 0"
    "ibuf h' (rsi_idx_start rsi) ! nat (nrows R34) = nnz R34"
    by blast
  from row_starts_offsets [OF al0, of release_build, THEN conjunct2, THEN conjunct1, rule_format, OF zero]
  obtain rsi0 h0 where b: "allocAndBuildRowStarts release_build heap_E00 E00 = Inr (rsi0, h0)"
    "brk heap_E00 \<le> rsi_idx_start rsi0"
    "ibuf h0 (rsi_idx_start rsi0) = [fresh_int heap_E00 0]"
    by blast
  have "\<exists>rsi h'. allocAndBuildRowStarts debug_build heap_R34 R34 = Inr (rsi, h')
         \<and> length (ibuf h' (rsi_idx_start rsi)) = 4
         \<and> ibuf h' (rsi_idx_start rsi) ! 0 = 0
         \<and> ibuf h' (rsi_idx_start rsi) ! 3 = 4"
    using a by (simp add: R34_def)
  moreover have "\<exists>rsi h'. allocAndBuildRowStarts release_build heap_E00 E00 = Inr (rsi, h')
         \<and> brk heap_E00 \<le> rsi_idx_start rsi
         \<and> ibuf h' (rsi_idx_start rsi) = [fresh_int heap_E00 0]"
    using b by blast
  ultimately show ?thesis using pre zero by blast
qed

text \<open>
  C7 as stated fails for a matrix with no rows: the function returns the device index
  right after allocating it, and its single entry holds whatever the fresh memory
  held (here 7), not \<open>0 = nnz\<close>.
\<close>

theorem row_starts_no_rows_counterexample:
  "host_triplets_ok heap_E00 E00 \<and> row_major_sorted heap_E00 E00 \<and> nrows E00 = 0 \<and> nnz E00 = 0
   \<and> (case allocAndBuildRowStarts debug_build heap_E00 E00 of
         Inl e \<Rightarrow> False
       | Inr (rsi, h') \<Rightarrow> ibuf h' (rsi_idx_start rsi) = [7])"
  by (simp add: host_triplets_ok_def row_major_sorted_def heap_E00_def E00_def
      allocAndBuildRowStarts_def new_RowStartsInfo_def getAllocator_def allocate_int_def
      delete_RowStartsInfo_def deallocate_int_def debug_build_def Let_def)

subsection \<open>The merge-join of two rows\<close>

lemma fdiv_ok: "d \<noteq> 0 \<Longrightarrow> fdiv a d = Inr (a / d)"
  by (simp add: fdiv_def)

lemma merge_join_pairs:
  fixes a b e1 e2 s1 s2 :: nat
  assumes len1: "e1 \<le> length jc1" "e1 \<le> length v1" "int e1 \<le> nz1"
    and len2: "e2 \<le> length jc2" "e2 \<le> length v2" "int e2 \<le> nz2"
    and cols: "\<And>k. s1 \<le> k \<Longrightarrow> k < e1 \<Longrightarrow>
                 0 \<le> jc1 ! k \<and> jc1 ! k < int (length DM) \<and> DM ! nat (jc1 ! k) \<noteq> 0"
    and inc1: "\<And>k k'. s1 \<le> k \<Longrightarrow> k < k' \<Longrightarrow> k' < e1 \<Longrightarrow> jc1 ! k < jc1 ! k'"
    and inc2: "\<And>k k'. s2 \<le> k \<Longrightarrow> k < k' \<Longrightarrow> k' < e2 \<Longrightarrow> jc2 ! k < jc2 ! k'"
    and a: "s1 \<le> a" and b: "s2 \<le> b"
  shows "merge_join cfg nz1 nz2 jc1 jc2 v1 v2 DM (int e1) (int e2) (int a) (int b) acc
         = Inr (acc + (\<Sum>k\<in>{a..<e1}. \<Sum>l\<in>{b..<e2}.
                   if jc1 ! k = jc2 ! l then v1 ! k / DM ! nat (jc1 ! k) * v2 ! l else 0))"
  using a b
proof (induction "(e1 - a) + (e2 - b)" arbitrary: a b acc rule: less_induct)
  case less
  let ?T = "\<lambda>k l. if jc1 ! k = jc2 ! l then v1 ! k / DM ! nat (jc1 ! k) * v2 ! l else 0"
  show ?case
  proof (cases "a < e1 \<and> b < e2")
    case False
    then have "(\<Sum>k\<in>{a..<e1}. \<Sum>l\<in>{b..<e2}. ?T k l) = 0" by auto
    moreover have "merge_join cfg nz1 nz2 jc1 jc2 v1 v2 DM (int e1) (int e2) (int a) (int b) acc
                   = Inr acc"
      using False by (subst merge_join.simps) auto
    ultimately show ?thesis by simp
  next
    case True
    then have ae: "a < e1" and be: "b < e2" by simp_all
    have rds: "rd jc1 (int a) = Inr (jc1 ! a)" "rd jc2 (int b) = Inr (jc2 ! b)"
      "rd v1 (int a) = Inr (v1 ! a)" "rd v2 (int b) = Inr (v2 ! b)"
      using ae be len1 len2 by simp_all
    have as: "c_assert cfg (int a < nz1) = Inr ()" "c_assert cfg (int b < nz2) = Inr ()"
      using ae be len1 len2 by simp_all
    have split_a: "(\<Sum>k\<in>{a..<e1}. g k) = g a + (\<Sum>k\<in>{Suc a..<e1}. g k)" for g :: "nat \<Rightarrow> real"
      using ae by (simp add: sum.atLeast_Suc_lessThan)
    have split_b: "(\<Sum>l\<in>{b..<e2}. g l) = g b + (\<Sum>l\<in>{Suc b..<e2}. g l)" for g :: "nat \<Rightarrow> real"
      using be by (simp add: sum.atLeast_Suc_lessThan)
    have unfold: "merge_join cfg nz1 nz2 jc1 jc2 v1 v2 DM (int e1) (int e2) (int a) (int b) acc
        = (if jc1 ! a = jc2 ! b then
             (case rd DM (jc1 ! a) of Inl e \<Rightarrow> Inl e
              | Inr d \<Rightarrow> (case fdiv (v1 ! a) d of Inl e \<Rightarrow> Inl e
                 | Inr q \<Rightarrow> merge_join cfg nz1 nz2 jc1 jc2 v1 v2 DM (int e1) (int e2)
                               (int a + 1) (int b + 1) (acc + q * v2 ! b)))
           else if jc1 ! a < jc2 ! b
             then merge_join cfg nz1 nz2 jc1 jc2 v1 v2 DM (int e1) (int e2) (int a + 1) (int b) acc
             else merge_join cfg nz1 nz2 jc1 jc2 v1 v2 DM (int e1) (int e2) (int a) (int b + 1) acc)"
      using ae be by (subst merge_join.simps) (simp add: rds as split: sum.splits)
    have sa: "int a + 1 = int (Suc a)" "int b + 1 = int (Suc b)" by simp_all
    consider (eq) "jc1 ! a = jc2 ! b" | (lt) "jc1 ! a < jc2 ! b" | (gt) "jc2 ! b < jc1 ! a"
      by linarith
    then show ?thesis
    proof cases
      case eq
      have c: "0 \<le> jc1 ! a" "jc1 ! a < int (length DM)" "DM ! nat (jc1 ! a) \<noteq> 0"
        using cols [OF less.prems(1) ae] by simp_all
      have row0: "(\<Sum>l\<in>{Suc b..<e2}. ?T a l) = 0"
      proof (rule sum.neutral, rule ballI)
        fix l assume "l \<in> {Suc b..<e2}"
        then have "jc2 ! b < jc2 ! l" using inc2 [of b l] less.prems(2) by simp
        then show "?T a l = 0" using eq by simp
      qed
      have col0: "(\<Sum>k\<in>{Suc a..<e1}. ?T k b) = 0"
      proof (rule sum.neutral, rule ballI)
        fix k assume "k \<in> {Suc a..<e1}"
        then have "jc1 ! a < jc1 ! k" using inc1 [of a k] less.prems(1) by simp
        then show "?T k b = 0" using eq by simp
      qed
      have "(\<Sum>k\<in>{a..<e1}. \<Sum>l\<in>{b..<e2}. ?T k l)
            = (\<Sum>l\<in>{b..<e2}. ?T a l) + (\<Sum>k\<in>{Suc a..<e1}. \<Sum>l\<in>{b..<e2}. ?T k l)"
        by (rule split_a)
      also have "(\<Sum>l\<in>{b..<e2}. ?T a l) = ?T a b" using split_b [of "?T a"] row0 by simp
      also have "(\<Sum>k\<in>{Suc a..<e1}. \<Sum>l\<in>{b..<e2}. ?T k l)
            = (\<Sum>k\<in>{Suc a..<e1}. ?T k b + (\<Sum>l\<in>{Suc b..<e2}. ?T k l))"
        by (rule sum.cong) (simp_all only: split_b)
      also have "\<dots> = (\<Sum>k\<in>{Suc a..<e1}. \<Sum>l\<in>{Suc b..<e2}. ?T k l)"
        using col0 by (simp add: sum.distrib)
      finally have sum: "(\<Sum>k\<in>{a..<e1}. \<Sum>l\<in>{b..<e2}. ?T k l)
            = v1 ! a / DM ! nat (jc1 ! a) * v2 ! b
              + (\<Sum>k\<in>{Suc a..<e1}. \<Sum>l\<in>{Suc b..<e2}. ?T k l)"
        using eq by simp
      have IH: "merge_join cfg nz1 nz2 jc1 jc2 v1 v2 DM (int e1) (int e2) (int (Suc a)) (int (Suc b))
                  (acc + v1 ! a / DM ! nat (jc1 ! a) * v2 ! b)
                = Inr (acc + v1 ! a / DM ! nat (jc1 ! a) * v2 ! b
                       + (\<Sum>k\<in>{Suc a..<e1}. \<Sum>l\<in>{Suc b..<e2}. ?T k l))"
        by (rule less.hyps) (use ae be less.prems in simp_all)
      show ?thesis
        unfolding unfold sa using eq c IH sum by (simp add: rd_nat fdiv_ok)
    next
      case lt
      have row0: "(\<Sum>l\<in>{b..<e2}. ?T a l) = 0"
      proof (rule sum.neutral, rule ballI)
        fix l assume l: "l \<in> {b..<e2}"
        have "jc2 ! b \<le> jc2 ! l"
        proof (cases "l = b")
          case False
          then show ?thesis using inc2 [of b l] less.prems(2) l by simp
        qed simp
        then show "?T a l = 0" using lt by simp
      qed
      have sum: "(\<Sum>k\<in>{a..<e1}. \<Sum>l\<in>{b..<e2}. ?T k l)
            = (\<Sum>k\<in>{Suc a..<e1}. \<Sum>l\<in>{b..<e2}. ?T k l)"
        using split_a [of "\<lambda>k. \<Sum>l\<in>{b..<e2}. ?T k l"] row0 by simp
      have IH: "merge_join cfg nz1 nz2 jc1 jc2 v1 v2 DM (int e1) (int e2) (int (Suc a)) (int b) acc
                = Inr (acc + (\<Sum>k\<in>{Suc a..<e1}. \<Sum>l\<in>{b..<e2}. ?T k l))"
        by (rule less.hyps) (use ae be less.prems in simp_all)
      show ?thesis unfolding unfold sa using lt IH sum by simp
    next
      case gt
      have col0: "?T k b = 0" if "k \<in> {a..<e1}" for k
      proof -
        have "jc1 ! a \<le> jc1 ! k"
        proof (cases "k = a")
          case False
          then show ?thesis using inc1 [of a k] less.prems(1) that by simp
        qed simp
        then show ?thesis using gt by simp
      qed
      have "(\<Sum>k\<in>{a..<e1}. \<Sum>l\<in>{b..<e2}. ?T k l)
            = (\<Sum>k\<in>{a..<e1}. ?T k b + (\<Sum>l\<in>{Suc b..<e2}. ?T k l))"
        by (rule sum.cong) (simp_all only: split_b)
      also have "\<dots> = (\<Sum>k\<in>{a..<e1}. \<Sum>l\<in>{Suc b..<e2}. ?T k l)"
        by (rule sum.cong) (simp_all add: col0)
      finally have sum: "(\<Sum>k\<in>{a..<e1}. \<Sum>l\<in>{b..<e2}. ?T k l)
            = (\<Sum>k\<in>{a..<e1}. \<Sum>l\<in>{Suc b..<e2}. ?T k l)" .
      have IH: "merge_join cfg nz1 nz2 jc1 jc2 v1 v2 DM (int e1) (int e2) (int a) (int (Suc b)) acc
                = Inr (acc + (\<Sum>k\<in>{a..<e1}. \<Sum>l\<in>{Suc b..<e2}. ?T k l))"
        by (rule less.hyps) (use ae be less.prems in simp_all)
      show ?thesis unfolding unfold sa using gt IH sum by simp
    qed
  qed
qed


lemma diag_acc_sum:
  fixes a e s :: nat
  assumes len: "e \<le> length jcl" "e \<le> length vls"
    and cols: "\<And>k. s \<le> k \<Longrightarrow> k < e \<Longrightarrow>
                 0 \<le> jcl ! k \<and> jcl ! k < int (length DM) \<and> DM ! nat (jcl ! k) \<noteq> 0"
    and a: "s \<le> a"
  shows "diag_acc jcl vls DM (int e) (int a) acc
         = Inr (acc + (\<Sum>k\<in>{a..<e}. vls ! k / DM ! nat (jcl ! k) * vls ! k))"
  using a
proof (induction "e - a" arbitrary: a acc)
  case 0
  then have "\<not> a < e" by simp
  then show ?case by (subst diag_acc.simps) simp
next
  case (Suc m)
  then have ae: "a < e" by simp
  have c: "0 \<le> jcl ! a" "jcl ! a < int (length DM)" "DM ! nat (jcl ! a) \<noteq> 0"
    using cols [OF Suc.prems ae] by simp_all
  have rds: "rd vls (int a) = Inr (vls ! a)" "rd jcl (int a) = Inr (jcl ! a)"
    "rd DM (jcl ! a) = Inr (DM ! nat (jcl ! a))"
    using ae len c by (simp_all add: rd_nat)
  have sa: "int a + 1 = int (Suc a)" by simp
  have IH: "diag_acc jcl vls DM (int e) (int (Suc a)) (acc + vls ! a / DM ! nat (jcl ! a) * vls ! a)
        = Inr (acc + vls ! a / DM ! nat (jcl ! a) * vls ! a
               + (\<Sum>k\<in>{Suc a..<e}. vls ! k / DM ! nat (jcl ! k) * vls ! k))"
    by (rule Suc.hyps(1)) (use Suc.hyps(2) Suc.prems in simp_all)
  have "diag_acc jcl vls DM (int e) (int a) acc
        = diag_acc jcl vls DM (int e) (int a + 1) (acc + vls ! a / DM ! nat (jcl ! a) * vls ! a)"
    using ae c by (subst diag_acc.simps) (simp add: rds fdiv_ok)
  then show ?case
    unfolding sa using IH ae by (simp add: sum.atLeast_Suc_lessThan)
qed

lemma sum_row_slice:
  fixes f :: "nat \<Rightarrow> real"
  assumes "\<And>k. k < n \<Longrightarrow> P k = (s \<le> k \<and> k < e)" and "e \<le> n"
  shows "(\<Sum>k<n. if P k then f k else 0) = (\<Sum>k\<in>{s..<e}. f k)"
proof -
  have "(\<Sum>k\<in>{s..<e}. f k) = (\<Sum>k\<in>{..<n}. if P k then f k else 0)"
    by (rule sum.mono_neutral_cong_left) (use assms in auto)
  then show ?thesis by simp
qed

lemma wdot_pairs:
  fixes r1 c1 r2 c2 :: "nat \<Rightarrow> int" and v1 v2 d :: "nat \<Rightarrow> real"
  assumes row1: "\<And>k. k < n1 \<Longrightarrow> (r1 k = i) = (s1 \<le> k \<and> k < e1)" and e1: "e1 \<le> n1"
    and row2: "\<And>l. l < n2 \<Longrightarrow> (r2 l = j) = (s2 \<le> l \<and> l < e2)" and e2: "e2 \<le> n2"
    and col1: "\<And>k. s1 \<le> k \<Longrightarrow> k < e1 \<Longrightarrow> 0 \<le> c1 k \<and> c1 k < int nc"
  shows "(\<Sum>c<nc. (\<Sum>k<n1. if r1 k = i \<and> c1 k = int c then v1 k else 0) / d c
                  * (\<Sum>l<n2. if r2 l = j \<and> c2 l = int c then v2 l else 0))
         = (\<Sum>k\<in>{s1..<e1}. \<Sum>l\<in>{s2..<e2}. if c1 k = c2 l then v1 k / d (nat (c1 k)) * v2 l else 0)"
proof -
  have A: "(\<Sum>k<n1. if r1 k = i \<and> c1 k = int c then v1 k else 0)
           = (\<Sum>k\<in>{s1..<e1}. if c1 k = int c then v1 k else 0)" for c
  proof -
    have "(\<Sum>k<n1. if r1 k = i \<and> c1 k = int c then v1 k else 0)
          = (\<Sum>k<n1. if r1 k = i then (if c1 k = int c then v1 k else 0) else 0)"
      by (rule sum.cong) auto
    also have "\<dots> = (\<Sum>k\<in>{s1..<e1}. if c1 k = int c then v1 k else 0)"
      by (rule sum_row_slice) (use row1 e1 in auto)
    finally show ?thesis .
  qed
  have B: "(\<Sum>l<n2. if r2 l = j \<and> c2 l = int c then v2 l else 0)
           = (\<Sum>l\<in>{s2..<e2}. if c2 l = int c then v2 l else 0)" for c
  proof -
    have "(\<Sum>l<n2. if r2 l = j \<and> c2 l = int c then v2 l else 0)
          = (\<Sum>l<n2. if r2 l = j then (if c2 l = int c then v2 l else 0) else 0)"
      by (rule sum.cong) auto
    also have "\<dots> = (\<Sum>l\<in>{s2..<e2}. if c2 l = int c then v2 l else 0)"
      by (rule sum_row_slice) (use row2 e2 in auto)
    finally show ?thesis .
  qed
  have prod: "(\<Sum>k\<in>K. x k) / z * (\<Sum>l\<in>L. y l) = (\<Sum>k\<in>K. \<Sum>l\<in>L. x k / z * y l)"
    for K L :: "nat set" and x y :: "nat \<Rightarrow> real" and z :: real
    by (simp only: sum_divide_distrib sum_product)
  have "(\<Sum>c<nc. (\<Sum>k<n1. if r1 k = i \<and> c1 k = int c then v1 k else 0) / d c
                  * (\<Sum>l<n2. if r2 l = j \<and> c2 l = int c then v2 l else 0))
        = (\<Sum>c<nc. \<Sum>k\<in>{s1..<e1}. \<Sum>l\<in>{s2..<e2}.
              (if c1 k = int c then v1 k else 0) / d c * (if c2 l = int c then v2 l else 0))"
    by (simp only: A B prod)
  also have "\<dots> = (\<Sum>k\<in>{s1..<e1}. \<Sum>c<nc. \<Sum>l\<in>{s2..<e2}.
              (if c1 k = int c then v1 k else 0) / d c * (if c2 l = int c then v2 l else 0))"
    by (rule sum.swap)
  also have "\<dots> = (\<Sum>k\<in>{s1..<e1}. \<Sum>l\<in>{s2..<e2}. \<Sum>c<nc.
              (if c1 k = int c then v1 k else 0) / d c * (if c2 l = int c then v2 l else 0))"
    by (rule sum.cong [OF refl]) (rule sum.swap)
  also have "\<dots> = (\<Sum>k\<in>{s1..<e1}. \<Sum>l\<in>{s2..<e2}.
              if c1 k = c2 l then v1 k / d (nat (c1 k)) * v2 l else 0)"
  proof (intro sum.cong refl)
    fix k l assume k: "k \<in> {s1..<e1}" and "l \<in> {s2..<e2}"
    have ck: "0 \<le> c1 k" "c1 k < int nc" using col1 [of k] k by simp_all
    have "(\<Sum>c<nc. (if c1 k = int c then v1 k else 0) / d c * (if c2 l = int c then v2 l else 0))
          = (\<Sum>c<nc. if nat (c1 k) = c
                       then (if c1 k = c2 l then v1 k / d (nat (c1 k)) * v2 l else 0) else 0)"
      by (rule sum.cong) (use ck in auto)
    also have "\<dots> = (if c1 k = c2 l then v1 k / d (nat (c1 k)) * v2 l else 0)"
    proof -
      have mem: "nat (c1 k) \<in> {..<nc}" using ck by simp
      show ?thesis by (simp only: sum.delta' finite_lessThan mem if_True)
    qed
    finally show "(\<Sum>c<nc. (if c1 k = int c then v1 k else 0) / d c * (if c2 l = int c then v2 l else 0))
          = (if c1 k = c2 l then v1 k / d (nat (c1 k)) * v2 l else 0)" .
  qed
  finally show ?thesis .
qed


lemma rows_indexed_sorted:
  assumes "rows_indexed irw jcl idx n nz nc"
  shows "sorted irw"
proof -
  have len: "length irw = nz" "length jcl = nz"
    using assms by (simp_all add: rows_indexed_def)
  have lex: "irw ! a < irw ! b \<or> (irw ! a = irw ! b \<and> jcl ! a < jcl ! b)"
    if "a < b" "b < nz" for a b
    using assms that len unfolding rows_indexed_def sorted_wrt_iff_nth_less
    by (auto dest!: spec [of _ a] spec [of _ b])
  show ?thesis
    unfolding sorted_iff_nth_mono_less using lex len by (metis less_imp_le order_refl)
qed

lemma rows_indexed_nth:
  assumes "rows_indexed irw jcl idx n nz nc" and "i \<le> n"
  shows "idx ! i = rows_below irw (int i)" and "rd idx (int i) = Inr (rows_below irw (int i))"
proof -
  have idx: "idx = map (\<lambda>i. rows_below irw (int i)) [0..<Suc n]"
    using assms(1) by (simp add: rows_indexed_def)
  show 1: "idx ! i = rows_below irw (int i)"
    unfolding idx using assms(2) nth_map_upt [of i "Suc n" 0 "\<lambda>i. rows_below irw (int i)"] by simp
  have "i < length idx" unfolding idx using assms(2) by simp
  then show "rd idx (int i) = Inr (rows_below irw (int i))" using 1 by simp
qed

lemma rows_indexed_slice:
  assumes ri: "rows_indexed irw jcl idx n nz nc" and k: "k < nz"
  shows "(irw ! k = int i) = (rows_below irw (int i) \<le> int k \<and> int k < rows_below irw (int i + 1))"
proof -
  have len: "length irw = nz" using ri by (simp add: rows_indexed_def)
  have kl: "k < length irw" using k len by simp
  have "(int k < rows_below irw (int i)) = (irw ! k < int i)"
    "(int k < rows_below irw (int i + 1)) = (irw ! k < int i + 1)"
    by (rule sorted_rows_below [OF rows_indexed_sorted [OF ri] kl])+
  then show ?thesis by auto
qed

lemma rows_indexed_strict:
  assumes ri: "rows_indexed irw jcl idx n nz nc"
    and k: "rows_below irw (int i) \<le> int k" "k < k'" "int k' < rows_below irw (int i + 1)"
  shows "jcl ! k < jcl ! k'"
proof -
  have len: "length irw = nz" "length jcl = nz" using ri by (simp_all add: rows_indexed_def)
  have k'nz: "k' < nz" using k(3) rows_below_le_length [of irw "int i + 1"] len by simp
  then have knz: "k < nz" using k(2) by simp
  have "irw ! k = int i" "irw ! k' = int i"
    using rows_indexed_slice [OF ri knz, of i] rows_indexed_slice [OF ri k'nz, of i] k
      rows_below_mono [of "int i" "int i + 1" irw]
    by simp_all
  moreover have "irw ! k < irw ! k' \<or> (irw ! k = irw ! k' \<and> jcl ! k < jcl ! k')"
    using ri k(2) k'nz len unfolding rows_indexed_def sorted_wrt_iff_nth_less
    by (auto dest!: spec [of _ k] spec [of _ k'])
  ultimately show ?thesis by simp
qed

lemma rows_indexed_cols:
  assumes "rows_indexed irw jcl idx n nz nc" and "k < nz"
  shows "0 \<le> jcl ! k" and "jcl ! k < int nc"
  using assms by (simp_all add: rows_indexed_def)


lemma merge_join_rows:
  assumes r1: "rows_indexed irw1 jc1 idx1 n1 z1 nc" and r2: "rows_indexed irw2 jc2 idx2 n2 z2 nc2"
    and v1: "length v1 = z1" and v2: "length v2 = z2"
    and D: "length D = nc" "\<forall>d\<in>set D. d \<noteq> 0"
  shows "merge_join cfg (int z1) (int z2) jc1 jc2 v1 v2 D
           (rows_below irw1 (int i + 1)) (rows_below irw2 (int j + 1))
           (rows_below irw1 (int i)) (rows_below irw2 (int j)) 0
         = Inr (\<Sum>c<nc. entry_of irw1 jc1 v1 i c / D ! c * entry_of irw2 jc2 v2 j c)"
proof -
  let ?s1 = "nat (rows_below irw1 (int i))" and ?e1 = "nat (rows_below irw1 (int i + 1))"
  let ?s2 = "nat (rows_below irw2 (int j))" and ?e2 = "nat (rows_below irw2 (int j + 1))"
  have len1: "length irw1 = z1" "length jc1 = z1" and len2: "length irw2 = z2" "length jc2 = z2"
    using r1 r2 by (simp_all add: rows_indexed_def)
  have i1: "int ?s1 = rows_below irw1 (int i)" "int ?e1 = rows_below irw1 (int i + 1)"
    and i2: "int ?s2 = rows_below irw2 (int j)" "int ?e2 = rows_below irw2 (int j + 1)"
    by (simp_all add: rows_below_nonneg)
  have e1: "?e1 \<le> z1" using rows_below_le_length [of irw1 "int i + 1"] len1 by simp
  have e2: "?e2 \<le> z2" using rows_below_le_length [of irw2 "int j + 1"] len2 by simp
  have cols: "0 \<le> jc1 ! k \<and> jc1 ! k < int (length D) \<and> D ! nat (jc1 ! k) \<noteq> 0"
    if "?s1 \<le> k" "k < ?e1" for k
  proof -
    have "k < z1" using that e1 by simp
    then have c: "0 \<le> jc1 ! k" "jc1 ! k < int nc" using rows_indexed_cols [OF r1] by simp_all
    then have "nat (jc1 ! k) < length D" using D(1) by simp
    then have "D ! nat (jc1 ! k) \<in> set D" by simp
    then show ?thesis using c D by auto
  qed
  have inc1: "jc1 ! k < jc1 ! k'" if "?s1 \<le> k" "k < k'" "k' < ?e1" for k k'
    by (rule rows_indexed_strict [OF r1, of i]) (use that in simp_all)
  have inc2: "jc2 ! k < jc2 ! k'" if "?s2 \<le> k" "k < k'" "k' < ?e2" for k k'
    by (rule rows_indexed_strict [OF r2, of j]) (use that in simp_all)
  have mj: "merge_join cfg (int z1) (int z2) jc1 jc2 v1 v2 D (int ?e1) (int ?e2) (int ?s1) (int ?s2) 0
        = Inr (0 + (\<Sum>k\<in>{?s1..<?e1}. \<Sum>l\<in>{?s2..<?e2}.
                   if jc1 ! k = jc2 ! l then v1 ! k / D ! nat (jc1 ! k) * v2 ! l else 0))"
  proof (rule merge_join_pairs [where ?s1.0 = ?s1 and ?s2.0 = ?s2])
    show "int ?e1 \<le> int z1" "int ?e2 \<le> int z2" using e1 e2 by linarith+
  qed (use e1 e2 len1 len2 v1 v2 cols inc1 inc2 in simp_all)
  have row1: "(irw1 ! k = int i) = (?s1 \<le> k \<and> k < ?e1)" if "k < length v1" for k
    using rows_indexed_slice [OF r1, of k i] that v1 by (simp add: rows_below_nonneg) linarith
  have row2: "(irw2 ! l = int j) = (?s2 \<le> l \<and> l < ?e2)" if "l < length v2" for l
    using rows_indexed_slice [OF r2, of l j] that v2 by (simp add: rows_below_nonneg) linarith
  have col1: "0 \<le> jc1 ! k \<and> jc1 ! k < int nc" if "?s1 \<le> k" "k < ?e1" for k
    using cols [OF that] D(1) by simp
  have wd: "(\<Sum>c<nc. entry_of irw1 jc1 v1 i c / D ! c * entry_of irw2 jc2 v2 j c)
        = (\<Sum>k\<in>{?s1..<?e1}. \<Sum>l\<in>{?s2..<?e2}.
                   if jc1 ! k = jc2 ! l then v1 ! k / D ! nat (jc1 ! k) * v2 ! l else 0)"
    unfolding entry_of_def
    by (rule wdot_pairs [where ?r1.0 = "\<lambda>k. irw1 ! k" and ?r2.0 = "\<lambda>k. irw2 ! k"
          and ?c1.0 = "\<lambda>k. jc1 ! k" and ?c2.0 = "\<lambda>k. jc2 ! k"
          and ?v1.0 = "\<lambda>k. v1 ! k" and ?v2.0 = "\<lambda>k. v2 ! k" and d = "\<lambda>c. D ! c"])
       (use row1 row2 col1 e1 e2 v1 v2 in simp_all)
  show ?thesis using mj [unfolded i1 i2] wd by simp
qed

lemma diag_acc_row:
  assumes r: "rows_indexed irw jcl idx n nz nc" and v: "length vls = nz"
    and D: "length D = nc" "\<forall>d\<in>set D. d \<noteq> 0"
  shows "diag_acc jcl vls D (rows_below irw (int i + 1)) (rows_below irw (int i)) 0
         = Inr (\<Sum>c<nc. entry_of irw jcl vls i c / D ! c * entry_of irw jcl vls i c)"
proof -
  let ?s = "nat (rows_below irw (int i))" and ?e = "nat (rows_below irw (int i + 1))"
  have len: "length irw = nz" "length jcl = nz" using r by (simp_all add: rows_indexed_def)
  have ii: "int ?s = rows_below irw (int i)" "int ?e = rows_below irw (int i + 1)"
    by (simp_all add: rows_below_nonneg)
  have e: "?e \<le> nz" using rows_below_le_length [of irw "int i + 1"] len by simp
  have cols: "0 \<le> jcl ! k \<and> jcl ! k < int (length D) \<and> D ! nat (jcl ! k) \<noteq> 0"
    if "?s \<le> k" "k < ?e" for k
  proof -
    have "k < nz" using that e by simp
    then have c: "0 \<le> jcl ! k" "jcl ! k < int nc" using rows_indexed_cols [OF r] by simp_all
    then have "nat (jcl ! k) < length D" using D(1) by simp
    then have "D ! nat (jcl ! k) \<in> set D" by simp
    then show ?thesis using c D by auto
  qed
  have inc: "jcl ! k < jcl ! k'" if "?s \<le> k" "k < k'" "k' < ?e" for k k'
    by (rule rows_indexed_strict [OF r, of i]) (use that in simp_all)
  have da: "diag_acc jcl vls D (int ?e) (int ?s) 0
        = Inr (0 + (\<Sum>k\<in>{?s..<?e}. vls ! k / D ! nat (jcl ! k) * vls ! k))"
    by (rule diag_acc_sum [where s = ?s]) (use e len v cols in simp_all)
  have row: "(irw ! k = int i) = (?s \<le> k \<and> k < ?e)" if "k < length vls" for k
    using rows_indexed_slice [OF r, of k i] that v by (simp add: rows_below_nonneg) linarith
  have col1: "0 \<le> jcl ! k \<and> jcl ! k < int nc" if "?s \<le> k" "k < ?e" for k
    using cols [OF that] D(1) by simp
  have "(\<Sum>c<nc. entry_of irw jcl vls i c / D ! c * entry_of irw jcl vls i c)
        = (\<Sum>k\<in>{?s..<?e}. \<Sum>l\<in>{?s..<?e}.
                   if jcl ! k = jcl ! l then vls ! k / D ! nat (jcl ! k) * vls ! l else 0)"
    unfolding entry_of_def
    by (rule wdot_pairs [where ?r1.0 = "\<lambda>k. irw ! k" and ?r2.0 = "\<lambda>k. irw ! k"
          and ?c1.0 = "\<lambda>k. jcl ! k" and ?c2.0 = "\<lambda>k. jcl ! k"
          and ?v1.0 = "\<lambda>k. vls ! k" and ?v2.0 = "\<lambda>k. vls ! k" and d = "\<lambda>c. D ! c"])
       (use row col1 e v in simp_all)
  also have "\<dots> = (\<Sum>k\<in>{?s..<?e}. vls ! k / D ! nat (jcl ! k) * vls ! k)"
  proof (rule sum.cong [OF refl])
    fix k assume k: "k \<in> {?s..<?e}"
    have "(jcl ! k = jcl ! l) = (k = l)" if "l \<in> {?s..<?e}" for l
      using inc [of k l] inc [of l k] k that by (cases k l rule: linorder_cases) auto
    then have "(\<Sum>l\<in>{?s..<?e}. if jcl ! k = jcl ! l then vls ! k / D ! nat (jcl ! k) * vls ! l else 0)
          = (\<Sum>l\<in>{?s..<?e}. if k = l then vls ! k / D ! nat (jcl ! k) * vls ! l else 0)"
      by (intro sum.cong refl) simp
    also have "\<dots> = vls ! k / D ! nat (jcl ! k) * vls ! k"
      using k by (simp only: sum.delta' finite_atLeastLessThan if_True)
    finally show "(\<Sum>l\<in>{?s..<?e}. if jcl ! k = jcl ! l then vls ! k / D ! nat (jcl ! k) * vls ! l else 0)
          = vls ! k / D ! nat (jcl ! k) * vls ! k" .
  qed
  finally show ?thesis using da [unfolded ii] by simp
qed

subsection \<open>The weighted product into the diagonal block\<close>

lemma seq_for_accum:
  fixes buf_of :: "'s \<Rightarrow> real list"
  assumes step: "\<And>i s. a \<le> i \<Longrightarrow> i < b \<Longrightarrow> length (buf_of s) = L \<Longrightarrow> J i s \<Longrightarrow>
            \<exists>s'. f i s = Inr s' \<and> length (buf_of s') = L \<and> J (Suc i) s'
                 \<and> (\<forall>t<L. buf_of s' ! t = buf_of s ! t + G i t)"
    and init: "length (buf_of s0) = L" "J a s0" and le: "a \<le> b"
  shows "\<exists>s. seq_for f [a..<b] s0 = Inr s \<and> length (buf_of s) = L \<and> J b s
           \<and> (\<forall>t<L. buf_of s ! t = buf_of s0 ! t + (\<Sum>i\<in>{a..<b}. G i t))"
proof -
  let ?I = "\<lambda>i s. length (buf_of s) = L \<and> J i s
              \<and> (\<forall>t<L. buf_of s ! t = buf_of s0 ! t + (\<Sum>i'\<in>{a..<i}. G i' t))"
  have "\<exists>s. seq_for f [a..<b] s0 = Inr s \<and> ?I b s"
  proof (rule seq_for_upt_inv [where I = ?I])
    show "?I a s0" using init by simp
    show "a \<le> b" by (rule le)
  next
    fix i s assume i: "a \<le> i" "i < b" and inv: "?I i s"
    then obtain s' where s': "f i s = Inr s'" "length (buf_of s') = L" "J (Suc i) s'"
      "\<forall>t<L. buf_of s' ! t = buf_of s ! t + G i t"
      using step [of i s] by blast
    have "\<forall>t<L. buf_of s' ! t = buf_of s0 ! t + (\<Sum>i'\<in>{a..<Suc i}. G i' t)"
      using s'(4) inv i(1) by (simp add: sum.atLeastLessThan_Suc)
    then show "\<exists>s'. f i s = Inr s' \<and> ?I (Suc i) s'" using s' by blast
  qed
  then show ?thesis by blast
qed

lemma flat_bounds:
  fixes p q m n :: int
  assumes "0 \<le> p" "p < m" "0 \<le> q" "q < n"
  shows "0 \<le> p * n + q" and "p * n + q < m * n"
proof -
  show "0 \<le> p * n + q" using assms by simp
  have "p * n + q < (p + 1) * n" using assms by (simp add: distrib_right)
  also have "\<dots> \<le> m * n" using assms by (intro mult_right_mono) simp_all
  finally show "p * n + q < m * n" .
qed

lemma flat_inj:
  fixes p q p' q' n :: int
  assumes "0 \<le> q" "q < n" "0 \<le> q'" "q' < n"
  shows "(p * n + q = p' * n + q') = (p = p' \<and> q = q')"
proof
  assume eq: "p * n + q = p' * n + q'"
  have "(p * n + q) div n = p" "(p' * n + q') div n = p'"
    using assms by simp_all
  then have "p = p'" using eq by simp
  then show "p = p' \<and> q = q'" using eq by simp
qed simp

lemma view_add_flat:
  assumes "0 \<le> p * n + q" "p * n + q < int (length buf)"
  shows "view_add buf n p q d
         = Inr (buf[nat (p * n + q) := buf ! nat (p * n + q) + d])"
  using assms by (simp add: view_add_def rd_def wr_def)

lemma upper_block_pick:
  fixes F :: "nat \<Rightarrow> nat \<Rightarrow> real" and ds p q :: int
  assumes inj: "\<And>i j. i < n \<Longrightarrow> j < n \<Longrightarrow> (tgt i j = t) = (int i + ds = p \<and> int j + ds = q)"
  shows "(\<Sum>i\<in>{0..<n}. \<Sum>j\<in>{i..<n}. if tgt i j = t then F i j else 0)
         = (if ds \<le> p \<and> p \<le> q \<and> q < ds + int n then F (nat (p - ds)) (nat (q - ds)) else 0)"
proof (cases "ds \<le> p \<and> p \<le> q \<and> q < ds + int n")
  case True
  let ?i = "nat (p - ds)" and ?j = "nat (q - ds)"
  have ij: "?i \<le> ?j" "?j < n" "int ?i + ds = p" "int ?j + ds = q" using True by linarith+
  have "(\<Sum>i\<in>{0..<n}. \<Sum>j\<in>{i..<n}. if tgt i j = t then F i j else 0)
        = (\<Sum>i\<in>{0..<n}. if i = ?i then (\<Sum>j\<in>{i..<n}. if j = ?j then F i j else 0) else 0)"
  proof (rule sum.cong [OF refl])
    fix i assume i: "i \<in> {0..<n}"
    have "(\<Sum>j\<in>{i..<n}. if tgt i j = t then F i j else 0)
          = (\<Sum>j\<in>{i..<n}. if i = ?i \<and> j = ?j then F i j else 0)"
      by (rule sum.cong [OF refl]) (use i inj ij in auto)
    also have "\<dots> = (if i = ?i then (\<Sum>j\<in>{i..<n}. if j = ?j then F i j else 0) else 0)"
      by simp
    finally show "(\<Sum>j\<in>{i..<n}. if tgt i j = t then F i j else 0)
          = (if i = ?i then (\<Sum>j\<in>{i..<n}. if j = ?j then F i j else 0) else 0)" .
  qed
  also have "\<dots> = (\<Sum>j\<in>{?i..<n}. if j = ?j then F ?i j else 0)"
    using ij by (simp add: sum.delta)
  also have "\<dots> = F ?i ?j" using ij by (simp add: sum.delta)
  finally show ?thesis using True by simp
next
  case False
  have "(\<Sum>i\<in>{0..<n}. \<Sum>j\<in>{i..<n}. if tgt i j = t then F i j else 0) = 0"
  proof (intro sum.neutral ballI)
    fix i j assume "i \<in> {0..<n}" "j \<in> {i..<n}"
    then have "tgt i j \<noteq> t" using inj [of i j] False by auto
    then show "(if tgt i j = t then F i j else 0) = 0" by simp
  qed
  then show ?thesis by (simp only: False if_False)
qed

lemma full_block_pick:
  fixes F :: "nat \<Rightarrow> nat \<Rightarrow> real" and rs cs p q :: int
  assumes inj: "\<And>i j. i < m1 \<Longrightarrow> j < m2 \<Longrightarrow> (tgt i j = t) = (int i + rs = p \<and> int j + cs = q)"
  shows "(\<Sum>i\<in>{0..<m1}. \<Sum>j\<in>{0..<m2}. if tgt i j = t then F i j else 0)
         = (if rs \<le> p \<and> p < rs + int m1 \<and> cs \<le> q \<and> q < cs + int m2
            then F (nat (p - rs)) (nat (q - cs)) else 0)"
proof (cases "rs \<le> p \<and> p < rs + int m1 \<and> cs \<le> q \<and> q < cs + int m2")
  case True
  let ?i = "nat (p - rs)" and ?j = "nat (q - cs)"
  have ij: "?i < m1" "?j < m2" "int ?i + rs = p" "int ?j + cs = q" using True by linarith+
  have "(\<Sum>i\<in>{0..<m1}. \<Sum>j\<in>{0..<m2}. if tgt i j = t then F i j else 0)
        = (\<Sum>i\<in>{0..<m1}. if i = ?i then (\<Sum>j\<in>{0..<m2}. if j = ?j then F i j else 0) else 0)"
  proof (rule sum.cong [OF refl])
    fix i assume i: "i \<in> {0..<m1}"
    have "(\<Sum>j\<in>{0..<m2}. if tgt i j = t then F i j else 0)
          = (\<Sum>j\<in>{0..<m2}. if i = ?i \<and> j = ?j then F i j else 0)"
      by (rule sum.cong [OF refl]) (use i inj ij in auto)
    also have "\<dots> = (if i = ?i then (\<Sum>j\<in>{0..<m2}. if j = ?j then F i j else 0) else 0)"
      by simp
    finally show "(\<Sum>j\<in>{0..<m2}. if tgt i j = t then F i j else 0)
          = (if i = ?i then (\<Sum>j\<in>{0..<m2}. if j = ?j then F i j else 0) else 0)" .
  qed
  also have "\<dots> = (\<Sum>j\<in>{0..<m2}. if j = ?j then F ?i j else 0)"
    using ij by (simp add: sum.delta)
  also have "\<dots> = F ?i ?j" using ij by (simp add: sum.delta)
  finally show ?thesis using True by simp
next
  case False
  have "(\<Sum>i\<in>{0..<m1}. \<Sum>j\<in>{0..<m2}. if tgt i j = t then F i j else 0) = 0"
  proof (intro sum.neutral ballI)
    fix i j assume "i \<in> {0..<m1}" "j \<in> {0..<m2}"
    then have "tgt i j \<noteq> t" using inj [of i j] False by auto
    then show "(if tgt i j = t then F i j else 0) = 0" by simp
  qed
  then show ?thesis by (simp only: False if_False)
qed


lemma view_add_block:
  fixes p q Wm Wn :: int
  assumes "0 \<le> p" "p < Wm" "0 \<le> q" "q < Wn" and "length buf = nat (Wm * Wn)"
  shows "view_add buf Wn p q d = Inr (buf[nat (p * Wn + q) := buf ! nat (p * Wn + q) + d])"
    and "nat (p * Wn + q) < length buf"
proof -
  have b: "0 \<le> p * Wn + q" "p * Wn + q < Wm * Wn" using flat_bounds [OF assms(1-4)] by simp_all
  then have lt: "p * Wn + q < int (length buf)" using assms(5) by simp
  show "view_add buf Wn p q d = Inr (buf[nat (p * Wn + q) := buf ! nat (p * Wn + q) + d])"
    by (rule view_add_flat [OF b(1) lt])
  show "nat (p * Wn + q) < length buf" using b(1) lt by simp
qed

lemma offdiag_step:
  assumes ri: "rows_indexed irw jcl idx n z nc" and v: "length vls = z"
    and D: "length D = nc" "\<forall>d\<in>set D. d \<noteq> 0"
    and W: "0 \<le> ds" "ds + int n \<le> Wm" "ds + int n \<le> Wn" "length buf = nat (Wm * Wn)"
    and ij: "i < n" "j < n"
  shows "offdiag_body cfg (int z) idx jcl vls D Wn ds ds alpha i j buf
         = Inr (buf[nat ((int i + ds) * Wn + (int j + ds))
                    := buf ! nat ((int i + ds) * Wn + (int j + ds))
                       + alpha * (\<Sum>c<nc. entry_of irw jcl vls i c / D ! c * entry_of irw jcl vls j c)])"
proof -
  have r: "rd idx (int i) = Inr (rows_below irw (int i))"
    "rd idx (int j) = Inr (rows_below irw (int j))"
    using rows_indexed_nth(2) [OF ri, of i] rows_indexed_nth(2) [OF ri, of j] ij by simp_all
  have r1: "rd idx (int i + 1) = Inr (rows_below irw (int i + 1))"
    "rd idx (int j + 1) = Inr (rows_below irw (int j + 1))"
    using rows_indexed_nth(2) [OF ri, of "Suc i"] rows_indexed_nth(2) [OF ri, of "Suc j"] ij
    by (simp_all add: add.commute)
  have mj: "merge_join cfg (int z) (int z) jcl jcl vls vls D
           (rows_below irw (int i + 1)) (rows_below irw (int j + 1))
           (rows_below irw (int i)) (rows_below irw (int j)) 0
         = Inr (\<Sum>c<nc. entry_of irw jcl vls i c / D ! c * entry_of irw jcl vls j c)"
    by (rule merge_join_rows [OF ri ri v v D])
  have va: "view_add buf Wn (int i + ds) (int j + ds) d
        = Inr (buf[nat ((int i + ds) * Wn + (int j + ds))
                   := buf ! nat ((int i + ds) * Wn + (int j + ds)) + d])" for d
    by (rule view_add_block(1) [where Wm = Wm]) (use W ij in simp_all)
  show ?thesis by (simp only: offdiag_body_def r r1 bindE_Inr mj va)
qed

lemma diag_block_step:
  assumes ri: "rows_indexed irw jcl idx n z nc" and v: "length vls = z"
    and D: "length D = nc" "\<forall>d\<in>set D. d \<noteq> 0"
    and W: "0 \<le> ds" "ds + int n \<le> Wm" "ds + int n \<le> Wn" "length buf = nat (Wm * Wn)"
    and i: "i < n"
  shows "\<exists>buf'. diag_block_body cfg (int n) (int z) idx jcl vls D Wn ds ds alpha i buf = Inr buf'
           \<and> length buf' = nat (Wm * Wn)
           \<and> (\<forall>t<nat (Wm * Wn). buf' ! t = buf ! t
                + (\<Sum>j\<in>{i..<n}. if nat ((int i + ds) * Wn + (int j + ds)) = t
                      then alpha * (\<Sum>c<nc. entry_of irw jcl vls i c / D ! c * entry_of irw jcl vls j c)
                      else 0))"
proof -
  let ?S = "\<lambda>i j. \<Sum>c<nc. entry_of irw jcl vls i c / D ! c * entry_of irw jcl vls j c"
  let ?tgt = "\<lambda>j. nat ((int i + ds) * Wn + (int j + ds))"
  let ?G = "\<lambda>j t. if ?tgt j = t then alpha * ?S i j else 0"
  let ?L = "nat (Wm * Wn)"
  have r: "rd idx (int i) = Inr (rows_below irw (int i))"
    using rows_indexed_nth(2) [OF ri, of i] i by simp
  have r1: "rd idx (int i + 1) = Inr (rows_below irw (int i + 1))"
    using rows_indexed_nth(2) [OF ri, of "Suc i"] i by (simp add: add.commute)
  have da: "diag_acc jcl vls D (rows_below irw (int i + 1)) (rows_below irw (int i)) 0 = Inr (?S i i)"
    by (rule diag_acc_row [OF ri v D])
  let ?buf1 = "buf[?tgt i := buf ! ?tgt i + alpha * ?S i i]"
  have va: "view_add buf Wn (int i + ds) (int i + ds) (alpha * ?S i i) = Inr ?buf1"
    by (rule view_add_block(1) [where Wm = Wm]) (use W i in simp_all)
  have tl: "?tgt j < ?L" if "j < n" for j
    using view_add_block(2) [where Wm = Wm and buf = buf and p = "int i + ds" and q = "int j + ds"
        and Wn = Wn] W i that by simp
  have l1: "length ?buf1 = ?L" using W by simp
  have "\<exists>s. seq_for (offdiag_body cfg (int z) idx jcl vls D Wn ds ds alpha i) [Suc i..<n] ?buf1 = Inr s
          \<and> length (id s) = ?L \<and> True
          \<and> (\<forall>t<?L. id s ! t = id ?buf1 ! t + (\<Sum>j\<in>{Suc i..<n}. ?G j t))"
  proof (rule seq_for_accum [where J = "\<lambda>_ _. True" and buf_of = id])
    fix j and s :: "real list"
    assume j: "Suc i \<le> j" "j < n" and l: "length (id s) = ?L"
    have st: "offdiag_body cfg (int z) idx jcl vls D Wn ds ds alpha i j s
          = Inr (s[?tgt j := s ! ?tgt j + alpha * ?S i j])"
      by (rule offdiag_step [OF ri v D W(1-3) _ i j(2)]) (use l in simp)
    show "\<exists>s'. offdiag_body cfg (int z) idx jcl vls D Wn ds ds alpha i j s = Inr s'
            \<and> length (id s') = ?L \<and> True \<and> (\<forall>t<?L. id s' ! t = id s ! t + ?G j t)"
      unfolding st using l by (simp add: nth_list_update)
  qed (use l1 i in simp_all)
  then obtain buf' where b: "seq_for (offdiag_body cfg (int z) idx jcl vls D Wn ds ds alpha i)
        [Suc i..<n] ?buf1 = Inr buf'" "length buf' = ?L"
      "\<forall>t<?L. buf' ! t = ?buf1 ! t + (\<Sum>j\<in>{Suc i..<n}. ?G j t)"
    by auto
  have body: "diag_block_body cfg (int n) (int z) idx jcl vls D Wn ds ds alpha i buf = Inr buf'"
    by (simp only: diag_block_body_def r r1 bindE_Inr da va nat_int b(1))
  have "buf' ! t = buf ! t + (\<Sum>j\<in>{i..<n}. ?G j t)" if t: "t < ?L" for t
  proof -
    have "?buf1 ! t = buf ! t + ?G i t" using t W(4) by (simp add: nth_list_update)
    then show ?thesis using b(3) t i by (simp add: sum.atLeast_Suc_lessThan)
  qed
  then show ?thesis using body b(2) by blast
qed

lemma diag_block_loop:
  assumes ri: "rows_indexed irw jcl idx n z nc" and v: "length vls = z"
    and D: "length D = nc" "\<forall>d\<in>set D. d \<noteq> 0"
    and W: "0 \<le> ds" "ds + int n \<le> Wm" "ds + int n \<le> Wn" "length buf0 = nat (Wm * Wn)"
  shows "\<exists>buf. RAJA_forall (int n) (diag_block_body cfg (int n) (int z) idx jcl vls D Wn ds ds alpha) buf0
                 = Inr buf
           \<and> length buf = nat (Wm * Wn)
           \<and> (\<forall>t<nat (Wm * Wn). buf ! t = buf0 ! t
                + (\<Sum>i\<in>{0..<n}. \<Sum>j\<in>{i..<n}. if nat ((int i + ds) * Wn + (int j + ds)) = t
                      then alpha * (\<Sum>c<nc. entry_of irw jcl vls i c / D ! c * entry_of irw jcl vls j c)
                      else 0))"
proof -
  let ?L = "nat (Wm * Wn)"
  let ?G = "\<lambda>i t. \<Sum>j\<in>{i..<n}. if nat ((int i + ds) * Wn + (int j + ds)) = t
                      then alpha * (\<Sum>c<nc. entry_of irw jcl vls i c / D ! c * entry_of irw jcl vls j c)
                      else 0"
  have "\<exists>s. seq_for (diag_block_body cfg (int n) (int z) idx jcl vls D Wn ds ds alpha) [0..<n] buf0 = Inr s
          \<and> length (id s) = ?L \<and> True
          \<and> (\<forall>t<?L. id s ! t = id buf0 ! t + (\<Sum>i\<in>{0..<n}. ?G i t))"
  proof (rule seq_for_accum [where J = "\<lambda>_ _. True" and buf_of = id])
    fix i and s :: "real list"
    assume i: "i < n" and l: "length (id s) = ?L"
    show "\<exists>s'. diag_block_body cfg (int n) (int z) idx jcl vls D Wn ds ds alpha i s = Inr s'
            \<and> length (id s') = ?L \<and> True \<and> (\<forall>t<?L. id s' ! t = id s ! t + ?G i t)"
      using diag_block_step [OF ri v D W(1-3) _ i, of s cfg alpha] l by simp
  qed (use W in simp_all)
  then show ?thesis by (simp add: RAJA_forall_def)
qed


lemma row_starts_ready:
  assumes ready: "kernel_ready h M"
  shows "\<exists>rsi h'. (case row_starts_host M of
                      None \<Rightarrow> allocAndBuildRowStarts cfg h M
                    | Some rsi \<Rightarrow> Inr (rsi, h)) = Inr (rsi, h')
           \<and> ibuf h' (iRow M) = ibuf h (iRow M) \<and> ibuf h' (jCol M) = ibuf h (jCol M)
           \<and> dbuf h' = dbuf h
           \<and> (0 < nrows M \<longrightarrow>
                rows_indexed (ibuf h (iRow M)) (ibuf h (jCol M)) (ibuf h' (rsi_idx_start rsi))
                  (nat (nrows M)) (nat (nnz M)) (nat (ncols M)))"
proof -
  let ?irw = "ibuf h (iRow M)" and ?jcl = "ibuf h (jCol M)"
  let ?offs = "map (\<lambda>i. rows_below ?irw (int i)) [0..<Suc (nat (nrows M))]"
  have ok: "host_triplets_ok h M" and srt: "row_major_sorted h M"
    and sync: "ibuf h (iRow_host M) = ?irw" "ibuf h (jCol_host M) = ?jcl"
    and ptr: "iRow M < brk h" "jCol M < brk h"
    and al: "''HOST'' \<in> set (allocators h)" "mem_space M \<in> set (allocators h)"
    and dims: "0 \<le> nrows M" "0 \<le> ncols M" and tok: "triplets_ok h M"
    and cache: "row_starts_cached h M"
    using ready by (simp_all add: kernel_ready_def)
  have ri: "rows_indexed ?irw ?jcl ?offs (nat (nrows M)) (nat (nnz M)) (nat (ncols M))"
    using tok srt sync dims
    by (auto simp add: rows_indexed_def triplets_ok_def row_major_sorted_def list_all_iff)
  show ?thesis
  proof (cases "row_starts_host M")
    case (Some rsi)
    then have "ibuf h (rsi_idx_start rsi) = ?offs"
      using cache sync by (simp add: row_starts_cached_def)
    then show ?thesis using Some ri by (simp del: upt_Suc)
  next
    case None
    show ?thesis
    proof (cases "0 < nrows M")
      case True
      show ?thesis
        using None allocAndBuildRowStarts_result [OF ok srt True al, of cfg] ptr sync ri True
        by (simp del: upt_Suc)
    next
      case False
      then show ?thesis
        using None al ptr dims
        by (simp add: allocAndBuildRowStarts_def new_RowStartsInfo_def getAllocator_def
            allocate_int_def delete_RowStartsInfo_def deallocate_int_def Let_def)
    qed
  qed
qed

lemma dense_at_flat_eq:
  fixes p q Wn :: int
  assumes "0 \<le> q" "q < Wn" "i < n" "j < n" "0 \<le> ds" "ds + int n \<le> Wn" "0 \<le> p"
  shows "(nat ((int i + ds) * Wn + (int j + ds)) = nat (p * Wn + q))
         = (int i + ds = p \<and> int j + ds = q)"
proof -
  have a: "0 \<le> (int i + ds) * Wn + (int j + ds)" using assms by simp
  have b: "0 \<le> p * Wn + q" using assms by simp
  have "(nat ((int i + ds) * Wn + (int j + ds)) = nat (p * Wn + q))
        = ((int i + ds) * Wn + (int j + ds) = p * Wn + q)"
    using a b by auto
  also have "\<dots> = (int i + ds = p \<and> int j + ds = q)"
    by (rule flat_inj) (use assms in simp_all)
  finally show ?thesis .
qed


lemma addMDinvMtrans_result:
  assumes ready: "kernel_ready h M" and W: "dense_ok W"
    and fit: "0 \<le> ds" "ds + nrows M \<le> dense_m W" "ds + nrows M \<le> dense_n W"
    and D: "int (length D) = ncols M" "\<forall>d\<in>set D. d \<noteq> 0"
  shows "\<exists>h' M' W'. addMDinvMtransToDiagBlockOfSymDeMatUTri cfg h M ds alpha D W = Inr (h', M', W')
           \<and> dense_m W' = dense_m W \<and> dense_n W' = dense_n W \<and> dense_ok W'
           \<and> (\<forall>p q. 0 \<le> p \<and> p < dense_m W \<and> 0 \<le> q \<and> q < dense_n W \<longrightarrow>
                 dense_at W' p q = dense_at W p q
                   + (if ds \<le> p \<and> p \<le> q \<and> q < ds + nrows M
                      then alpha * weighted_dot h M M D (nat (p - ds)) (nat (q - ds)) else 0))"
proof -
  let ?irw = "ibuf h (iRow M)" and ?jcl = "ibuf h (jCol M)" and ?vls = "dbuf h (vals M)"
  let ?n = "nat (nrows M)" and ?z = "nat (nnz M)" and ?nc = "nat (ncols M)"
  let ?Wm = "dense_m W" and ?Wn = "dense_n W"
  let ?L = "nat (?Wm * ?Wn)"
  let ?S = "\<lambda>i j. \<Sum>c<?nc. entry_of ?irw ?jcl ?vls i c / D ! c * entry_of ?irw ?jcl ?vls j c"
  have dims: "0 \<le> nrows M" "0 \<le> ncols M" and tok: "triplets_ok h M"
    and hok: "host_triplets_ok h M"
    using ready by (simp_all add: kernel_ready_def)
  have nz: "0 \<le> nnz M" using hok by (simp add: host_triplets_ok_def)
  have vl: "length ?vls = ?z" using tok by (simp add: triplets_ok_def)
  have Dl: "length D = ?nc" using D(1) dims by simp
  have Wl: "length (local_buffer W) = ?L" and Wd: "0 \<le> ?Wm" "0 \<le> ?Wn"
    using W by (simp_all add: dense_ok_def)
  have ints: "int ?n = nrows M" "int ?z = nnz M" using dims nz by simp_all
  obtain rsi h' where rs: "(case row_starts_host M of
                      None \<Rightarrow> allocAndBuildRowStarts cfg h M
                    | Some rsi \<Rightarrow> Inr (rsi, h)) = Inr (rsi, h')"
    and fr: "ibuf h' (iRow M) = ?irw" "ibuf h' (jCol M) = ?jcl" "dbuf h' = dbuf h"
    and ri: "0 < nrows M \<longrightarrow> rows_indexed ?irw ?jcl (ibuf h' (rsi_idx_start rsi)) ?n ?z ?nc"
    using row_starts_ready [OF ready, of cfg] by blast
  let ?body = "diag_block_body cfg (nrows M) (nnz M) (ibuf h' (rsi_idx_start rsi))
                  (ibuf h' (jCol M)) (dbuf h' (vals M)) D ?Wn ds ds alpha"
  have loop: "\<exists>buf. RAJA_forall (nrows M) ?body (local_buffer W) = Inr buf
           \<and> length buf = ?L
           \<and> (\<forall>t<?L. buf ! t = local_buffer W ! t
                + (\<Sum>i\<in>{0..<?n}. \<Sum>j\<in>{i..<?n}.
                     if nat ((int i + ds) * ?Wn + (int j + ds)) = t then alpha * ?S i j else 0))"
  proof (cases "0 < nrows M")
    case True
    have r: "rows_indexed ?irw ?jcl (ibuf h' (rsi_idx_start rsi)) ?n ?z ?nc" using ri True by simp
    have f: "0 \<le> ds" "ds + int ?n \<le> ?Wm" "ds + int ?n \<le> ?Wn" using fit ints by simp_all
    show ?thesis
      using diag_block_loop [OF r vl Dl D(2) f Wl, of cfg alpha]
      by (simp only: ints fr)
  next
    case False
    then have "nrows M = 0" using dims by simp
    then show ?thesis using Wl by (simp add: RAJA_forall_def)
  qed
  then obtain buf where buf: "RAJA_forall (nrows M) ?body (local_buffer W) = Inr buf"
    "length buf = ?L"
    "\<forall>t<?L. buf ! t = local_buffer W ! t
        + (\<Sum>i\<in>{0..<?n}. \<Sum>j\<in>{i..<?n}.
             if nat ((int i + ds) * ?Wn + (int j + ds)) = t then alpha * ?S i j else 0)"
    by blast
  let ?W' = "W\<lparr>local_buffer := buf\<rparr>"
  have res: "addMDinvMtransToDiagBlockOfSymDeMatUTri cfg h M ds alpha D W
        = Inr (h', M\<lparr>row_starts_host := Some rsi\<rparr>, ?W')"
    using fit D(1) by (simp add: addMDinvMtransToDiagBlockOfSymDeMatUTri_def Let_def rs buf(1))
  have ent: "dense_at ?W' p q = dense_at W p q
                   + (if ds \<le> p \<and> p \<le> q \<and> q < ds + nrows M
                      then alpha * weighted_dot h M M D (nat (p - ds)) (nat (q - ds)) else 0)"
    if pq: "0 \<le> p" "p < ?Wm" "0 \<le> q" "q < ?Wn" for p q
  proof -
    let ?t = "nat (p * ?Wn + q)"
    have t: "?t < ?L" using flat_bounds [OF pq] by simp
    have inj: "(nat ((int i + ds) * ?Wn + (int j + ds)) = ?t) = (int i + ds = p \<and> int j + ds = q)"
      if "i < ?n" "j < ?n" for i j
      by (rule dense_at_flat_eq [where n = ?n]) (use that pq fit ints in simp_all)
    have "(\<Sum>i\<in>{0..<?n}. \<Sum>j\<in>{i..<?n}.
             if nat ((int i + ds) * ?Wn + (int j + ds)) = ?t then alpha * ?S i j else 0)
          = (if ds \<le> p \<and> p \<le> q \<and> q < ds + int ?n
             then alpha * ?S (nat (p - ds)) (nat (q - ds)) else 0)"
      by (rule upper_block_pick [where F = "\<lambda>i j. alpha * ?S i j"]) (rule inj)
    then show ?thesis
      using buf(3) t by (simp add: dense_at_def weighted_dot_def entry_def ints)
  qed
  have "dense_ok ?W'" using W buf(2) by (simp add: dense_ok_def)
  then show ?thesis using res ent by auto
qed


lemma kernel_ready_row: "kernel_ready (heap_row a) A11"
  by (simp add: kernel_ready_def triplets_ok_def host_triplets_ok_def row_major_sorted_def
      row_starts_cached_def heap_row_def A11_def)

lemma kernel_ready_R34: "kernel_ready heap_R34 R34"
  by (simp add: kernel_ready_def triplets_ok_def host_triplets_ok_def row_major_sorted_def
      row_starts_cached_def heap_R34_def R34_def)

lemma weighted_dot_row: "weighted_dot (heap_row a) A11 A11 [d] 0 0 = a\<^sup>2 / d"
  by (simp add: weighted_dot_def entry_def entry_of_def heap_row_def A11_def power2_eq_square)

text \<open>
  C5. For a well-formed matrix whose triplets are sorted by row and have strictly
  increasing columns within each row, a vector \<open>D\<close> of \<open>cols\<close> nonzero entries, and a
  destination block inside \<open>W\<close>: the call succeeds, and every entry \<open>(p, q)\<close> of \<open>W\<close>
  with \<open>dest_start \<le> p \<le> q < dest_start + rows\<close> grows by \<open>alpha\<close> times the entry
  \<open>(p - dest_start, q - dest_start)\<close> of \<open>A \<cdot> diag(D)\<^sup>-\<^sup>1 \<cdot> A\<^sup>T\<close>, the sum over the columns \<open>k\<close>
  of \<open>A[i,k] / D[k] \<cdot> A[j,k]\<close>; every other entry of \<open>W\<close> keeps its value. For a
  one-row matrix \<open>[a]\<close> and \<open>D = [d]\<close> the single destination entry grows by
  \<open>alpha \<cdot> a\<^sup>2 / d\<close>.
\<close>

theorem addMDinvMtrans_diag_block:
  assumes ready: "kernel_ready h M" and W: "dense_ok W"
    and fit: "0 \<le> ds" "ds + nrows M \<le> dense_m W" "ds + nrows M \<le> dense_n W"
    and D: "int (length D) = ncols M" "\<forall>d\<in>set D. d \<noteq> 0"
  shows "(\<exists>h' M' W'. addMDinvMtransToDiagBlockOfSymDeMatUTri cfg h M ds alpha D W = Inr (h', M', W')
           \<and> dense_m W' = dense_m W \<and> dense_n W' = dense_n W \<and> dense_ok W'
           \<and> (\<forall>p q. 0 \<le> p \<and> p < dense_m W \<and> 0 \<le> q \<and> q < dense_n W \<longrightarrow>
                 dense_at W' p q = dense_at W p q
                   + (if ds \<le> p \<and> p \<le> q \<and> q < ds + nrows M
                      then alpha * weighted_dot h M M D (nat (p - ds)) (nat (q - ds)) else 0)))
       \<and> (d \<noteq> 0 \<and> ds + 1 \<le> dense_m W \<and> ds + 1 \<le> dense_n W \<longrightarrow>
            (\<exists>h' M' W'. addMDinvMtransToDiagBlockOfSymDeMatUTri cfg (heap_row a) A11 ds alpha [d] W
                           = Inr (h', M', W')
               \<and> dense_at W' ds ds = dense_at W ds ds + alpha * (a\<^sup>2 / d)
               \<and> (\<forall>p q. 0 \<le> p \<and> p < dense_m W \<and> 0 \<le> q \<and> q < dense_n W
                         \<and> \<not> (p = ds \<and> q = ds) \<longrightarrow> dense_at W' p q = dense_at W p q)))"
proof (intro conjI impI)
  show "\<exists>h' M' W'. addMDinvMtransToDiagBlockOfSymDeMatUTri cfg h M ds alpha D W = Inr (h', M', W')
           \<and> dense_m W' = dense_m W \<and> dense_n W' = dense_n W \<and> dense_ok W'
           \<and> (\<forall>p q. 0 \<le> p \<and> p < dense_m W \<and> 0 \<le> q \<and> q < dense_n W \<longrightarrow>
                 dense_at W' p q = dense_at W p q
                   + (if ds \<le> p \<and> p \<le> q \<and> q < ds + nrows M
                      then alpha * weighted_dot h M M D (nat (p - ds)) (nat (q - ds)) else 0))"
    by (rule addMDinvMtrans_result [OF ready W fit D])
next
  assume one: "d \<noteq> 0 \<and> ds + 1 \<le> dense_m W \<and> ds + 1 \<le> dense_n W"
  have f: "ds + nrows A11 \<le> dense_m W" "ds + nrows A11 \<le> dense_n W"
    and Dd: "int (length [d]) = ncols A11" "\<forall>x\<in>set [d]. x \<noteq> 0"
    using one by (simp_all add: A11_def)
  obtain h' M' W' where r: "addMDinvMtransToDiagBlockOfSymDeMatUTri cfg (heap_row a) A11 ds alpha [d] W
        = Inr (h', M', W')"
    and e: "\<forall>p q. 0 \<le> p \<and> p < dense_m W \<and> 0 \<le> q \<and> q < dense_n W \<longrightarrow>
                 dense_at W' p q = dense_at W p q
                   + (if ds \<le> p \<and> p \<le> q \<and> q < ds + nrows A11
                      then alpha * weighted_dot (heap_row a) A11 A11 [d] (nat (p - ds)) (nat (q - ds))
                      else 0)"
    using addMDinvMtrans_result [OF kernel_ready_row [of a] W fit(1) f Dd,
        where cfg = cfg and alpha = alpha] by blast
  have n1: "nrows A11 = 1" by (simp add: A11_def)
  have "dense_at W' ds ds = dense_at W ds ds + alpha * (a\<^sup>2 / d)"
    using e [rule_format, of ds ds] one fit(1) by (simp add: n1 weighted_dot_row)
  moreover have "dense_at W' p q = dense_at W p q"
    if "0 \<le> p \<and> p < dense_m W \<and> 0 \<le> q \<and> q < dense_n W \<and> \<not> (p = ds \<and> q = ds)" for p q
    using e [rule_format, of p q] that by (auto simp add: n1)
  ultimately show "\<exists>h' M' W'. addMDinvMtransToDiagBlockOfSymDeMatUTri cfg (heap_row a) A11 ds alpha [d] W
                           = Inr (h', M', W')
               \<and> dense_at W' ds ds = dense_at W ds ds + alpha * (a\<^sup>2 / d)
               \<and> (\<forall>p q. 0 \<le> p \<and> p < dense_m W \<and> 0 \<le> q \<and> q < dense_n W
                         \<and> \<not> (p = ds \<and> q = ds) \<longrightarrow> dense_at W' p q = dense_at W p q)"
    using r by blast
qed

theorem addMDinvMtrans_diag_block_witness:
  "kernel_ready heap_R34 R34 \<and> dense_ok W33 \<and> int (length [1, 2, 4 :: real]) = ncols R34
   \<and> (\<exists>h' M' W'. addMDinvMtransToDiagBlockOfSymDeMatUTri debug_build heap_R34 R34 0 1 [1, 2, 4] W33
                    = Inr (h', M', W')
        \<and> dense_at W' 0 0 = 3 \<and> dense_at W' 0 2 = 4 \<and> dense_at W' 1 1 = 9 / 4
        \<and> dense_at W' 2 0 = 0)"
proof -
  have W: "dense_ok W33" by (simp add: dense_ok_def W33_def)
  have fit: "(0::int) \<le> 0" "0 + nrows R34 \<le> dense_m W33" "0 + nrows R34 \<le> dense_n W33"
    by (simp_all add: R34_def W33_def)
  have D: "int (length [1, 2, 4 :: real]) = ncols R34" "\<forall>d\<in>set [1, 2, 4 :: real]. d \<noteq> 0"
    by (simp_all add: R34_def)
  obtain h' M' W' where r: "addMDinvMtransToDiagBlockOfSymDeMatUTri debug_build heap_R34 R34 0 1
        [1, 2, 4] W33 = Inr (h', M', W')"
    and e: "\<forall>p q. 0 \<le> p \<and> p < dense_m W33 \<and> 0 \<le> q \<and> q < dense_n W33 \<longrightarrow>
                 dense_at W' p q = dense_at W33 p q
                   + (if 0 \<le> p \<and> p \<le> q \<and> q < 0 + nrows R34
                      then 1 * weighted_dot heap_R34 R34 R34 [1, 2, 4] (nat (p - 0)) (nat (q - 0))
                      else 0)"
    using addMDinvMtrans_diag_block [OF kernel_ready_R34 W fit D,
        where cfg = debug_build and alpha = 1, THEN conjunct1] by blast
  have wd: "weighted_dot heap_R34 R34 R34 [1, 2, 4] 0 0 = 3"
    "weighted_dot heap_R34 R34 R34 [1, 2, 4] 0 2 = 4"
    "weighted_dot heap_R34 R34 R34 [1, 2, 4] 1 1 = 9 / 4"
    by (simp_all add: weighted_dot_def entry_def entry_of_def heap_R34_def R34_def
        lessThan_Suc eval_nat_numeral)
  have "dense_at W' 0 0 = 3" "dense_at W' 0 2 = 4" "dense_at W' 1 1 = 9 / 4" "dense_at W' 2 0 = 0"
    using e [rule_format, of 0 0] e [rule_format, of 0 2] e [rule_format, of 1 1]
      e [rule_format, of 2 0] wd
    by (simp_all add: R34_def W33_def dense_at_def)
  then show ?thesis using kernel_ready_R34 W D(1) r by blast
qed

subsection \<open>The product of two matrices into an off-diagonal block\<close>

lemma seq_for_fail:
  assumes k: "a \<le> k" "k < b"
    and pre: "seq_for f [a..<k] s0 = Inr s" and bad: "f k s = Inl e"
  shows "seq_for f [a..<b] s0 = Inl e"
proof -
  have "[a..<b] = [a..<k] @ k # [Suc k..<b]"
    using k by (metis le_Suc_ex less_imp_le_nat upt_add_eq_append upt_conv_Cons)
  then show ?thesis using pre bad by (simp add: seq_for_append)
qed

lemma MDinvN_step:
  assumes r1: "rows_indexed irw1 jc1 idx1 n1 z1 nc" and r2: "rows_indexed irw2 jc2 idx2 n2 z2 nc2"
    and v: "length v1 = z1" "length v2 = z2"
    and D: "length D = nc" "\<forall>d\<in>set D. d \<noteq> 0"
    and W: "0 \<le> rs" "rs + int n1 \<le> Wm" "0 \<le> cs" "cs + int n2 \<le> Wn"
      "length buf = nat (Wm * Wn)"
    and ij: "i < n1" "j < n2"
  shows "MDinvN_body cfg (int z1) (int z2) idx1 idx2 jc1 jc2 v1 v2 D Wn rs cs alpha i j (buf, out)
         = (if deepchecks cfg \<and> \<not> ndebug cfg \<and> int i + rs > int j + cs
            then Inl AssertionFailed
            else Inr (buf[nat ((int i + rs) * Wn + (int j + cs))
                          := buf ! nat ((int i + rs) * Wn + (int j + cs))
                             + alpha * (\<Sum>c<nc. entry_of irw1 jc1 v1 i c / D ! c
                                                 * entry_of irw2 jc2 v2 j c)],
                      if deepchecks cfg \<and> int i + rs > int j + cs
                      then out @ [lower_triangle_warning] else out))"
proof -
  have r: "rd idx1 (int i) = Inr (rows_below irw1 (int i))"
    "rd idx2 (int j) = Inr (rows_below irw2 (int j))"
    using rows_indexed_nth(2) [OF r1, of i] rows_indexed_nth(2) [OF r2, of j] ij by simp_all
  have r': "rd idx1 (int i + 1) = Inr (rows_below irw1 (int i + 1))"
    "rd idx2 (int j + 1) = Inr (rows_below irw2 (int j + 1))"
    using rows_indexed_nth(2) [OF r1, of "Suc i"] rows_indexed_nth(2) [OF r2, of "Suc j"] ij
    by (simp_all add: add.commute)
  have mj: "merge_join cfg (int z1) (int z2) jc1 jc2 v1 v2 D
           (rows_below irw1 (int i + 1)) (rows_below irw2 (int j + 1))
           (rows_below irw1 (int i)) (rows_below irw2 (int j)) 0
         = Inr (\<Sum>c<nc. entry_of irw1 jc1 v1 i c / D ! c * entry_of irw2 jc2 v2 j c)"
    by (rule merge_join_rows [OF r1 r2 v D])
  have va: "view_add buf Wn (int i + rs) (int j + cs) d
        = Inr (buf[nat ((int i + rs) * Wn + (int j + cs))
                   := buf ! nat ((int i + rs) * Wn + (int j + cs)) + d])" for d
    by (rule view_add_block(1) [where Wm = Wm]) (use W ij in simp_all)
  have da: "deep_assert cfg (int i + rs \<le> int j + cs)
        = (if deepchecks cfg \<and> \<not> ndebug cfg \<and> int i + rs > int j + cs
           then Inl AssertionFailed else Inr ())"
    by (auto simp add: deep_assert_def c_assert_def)
  show ?thesis
    by (simp only: MDinvN_body_def prod.case r r' bindE_Inr mj Let_def da va)
       (simp add: bindE_def)
qed


lemma MDinvN_row_ok:
  assumes r1: "rows_indexed irw1 jc1 idx1 n1 z1 nc" and r2: "rows_indexed irw2 jc2 idx2 n2 z2 nc2"
    and v: "length v1 = z1" "length v2 = z2"
    and D: "length D = nc" "\<forall>d\<in>set D. d \<noteq> 0"
    and W: "0 \<le> rs" "rs + int n1 \<le> Wm" "0 \<le> cs" "cs + int n2 \<le> Wn"
      "length buf = nat (Wm * Wn)"
    and i: "i < n1"
    and safe: "\<not> (deepchecks cfg \<and> \<not> ndebug cfg \<and> 0 < n2 \<and> lower_pair rs cs i 0)"
  shows "\<exists>buf'. seq_for (MDinvN_body cfg (int z1) (int z2) idx1 idx2 jc1 jc2 v1 v2 D Wn rs cs alpha i)
                  [0..<n2] (buf, out)
                = Inr (buf', out @ replicate
                         (if deepchecks cfg
                          then (\<Sum>j\<in>{0..<n2}. if lower_pair rs cs i j then 1 else 0) else 0)
                         lower_triangle_warning)
           \<and> length buf' = nat (Wm * Wn)
           \<and> (\<forall>t<nat (Wm * Wn). buf' ! t = buf ! t
                + (\<Sum>j\<in>{0..<n2}. if nat ((int i + rs) * Wn + (int j + cs)) = t
                      then alpha * (\<Sum>c<nc. entry_of irw1 jc1 v1 i c / D ! c * entry_of irw2 jc2 v2 j c)
                      else 0))"
proof -
  let ?L = "nat (Wm * Wn)"
  let ?w = lower_triangle_warning
  let ?S = "\<lambda>j. \<Sum>c<nc. entry_of irw1 jc1 v1 i c / D ! c * entry_of irw2 jc2 v2 j c"
  let ?tgt = "\<lambda>j. nat ((int i + rs) * Wn + (int j + cs))"
  let ?G = "\<lambda>j t. if ?tgt j = t then alpha * ?S j else 0"
  let ?cnt = "\<lambda>j. if deepchecks cfg
                   then (\<Sum>j'\<in>{0..<j}. if lower_pair rs cs i j' then 1 else 0) else (0::nat)"
  let ?J = "\<lambda>j (s :: real list \<times> string list). snd s = out @ replicate (?cnt j) ?w"
  let ?f = "MDinvN_body cfg (int z1) (int z2) idx1 idx2 jc1 jc2 v1 v2 D Wn rs cs alpha i"
  have "\<exists>s. seq_for ?f [0..<n2] (buf, out) = Inr s \<and> length (fst s) = ?L \<and> ?J n2 s
          \<and> (\<forall>t<?L. fst s ! t = fst (buf, out) ! t + (\<Sum>j\<in>{0..<n2}. ?G j t))"
  proof (rule seq_for_accum [where J = ?J and buf_of = fst])
    fix j and s :: "real list \<times> string list"
    assume j: "j < n2" and l: "length (fst s) = ?L" and J: "?J j s"
    obtain b o' where s: "s = (b, o')" by (cases s)
    have nofail: "\<not> (deepchecks cfg \<and> \<not> ndebug cfg \<and> int i + rs > int j + cs)"
      using safe j by (auto simp add: lower_pair_def)
    have st: "?f j (b, o')
          = Inr (b[?tgt j := b ! ?tgt j + alpha * ?S j],
                 if deepchecks cfg \<and> int i + rs > int j + cs then o' @ [?w] else o')"
      using MDinvN_step [OF r1 r2 v D W(1-4) _ i j, of b cfg alpha o'] l s nofail by simp
    have J': "?J (Suc j) (b[?tgt j := b ! ?tgt j + alpha * ?S j],
                 if deepchecks cfg \<and> int i + rs > int j + cs then o' @ [?w] else o')"
      using J s by (simp add: lower_pair_def replicate_append_same)
    show "\<exists>s'. ?f j s = Inr s' \<and> length (fst s') = ?L \<and> ?J (Suc j) s'
            \<and> (\<forall>t<?L. fst s' ! t = fst s ! t + ?G j t)"
      unfolding s st using l s J' by (simp add: nth_list_update)
  qed (use W in simp_all)
  then show ?thesis by auto
qed

lemma MDinvN_row_fail:
  assumes r1: "rows_indexed irw1 jc1 idx1 n1 z1 nc" and r2: "rows_indexed irw2 jc2 idx2 n2 z2 nc2"
    and v: "length v1 = z1" "length v2 = z2"
    and D: "length D = nc" "\<forall>d\<in>set D. d \<noteq> 0"
    and W: "0 \<le> rs" "rs + int n1 \<le> Wm" "0 \<le> cs" "cs + int n2 \<le> Wn"
      "length buf = nat (Wm * Wn)"
    and i: "i < n1"
    and bad: "deepchecks cfg \<and> \<not> ndebug cfg \<and> 0 < n2 \<and> lower_pair rs cs i 0"
  shows "seq_for (MDinvN_body cfg (int z1) (int z2) idx1 idx2 jc1 jc2 v1 v2 D Wn rs cs alpha i)
           [0..<n2] (buf, out) = Inl AssertionFailed"
proof (rule seq_for_fail [where k = 0 and s = "(buf, out)"])
  show "0 \<le> (0::nat)" "0 < n2" using bad by simp_all
  show "seq_for (MDinvN_body cfg (int z1) (int z2) idx1 idx2 jc1 jc2 v1 v2 D Wn rs cs alpha i)
          [0..<0] (buf, out) = Inr (buf, out)" by simp
  show "MDinvN_body cfg (int z1) (int z2) idx1 idx2 jc1 jc2 v1 v2 D Wn rs cs alpha i 0 (buf, out)
        = Inl AssertionFailed"
    using MDinvN_step [OF r1 r2 v D W i, of 0 cfg alpha out] bad by (simp add: lower_pair_def)
qed


lemma MDinvN_rows_prefix:
  assumes r1: "rows_indexed irw1 jc1 idx1 n1 z1 nc" and r2: "rows_indexed irw2 jc2 idx2 n2 z2 nc2"
    and v: "length v1 = z1" "length v2 = z2"
    and D: "length D = nc" "\<forall>d\<in>set D. d \<noteq> 0"
    and W: "0 \<le> rs" "rs + int n1 \<le> Wm" "0 \<le> cs" "cs + int n2 \<le> Wn"
      "length buf0 = nat (Wm * Wn)"
    and m: "m \<le> n1"
    and safe: "\<And>i. i < m \<Longrightarrow>
                 \<not> (deepchecks cfg \<and> \<not> ndebug cfg \<and> 0 < n2 \<and> lower_pair rs cs i 0)"
  shows "\<exists>buf. seq_for (\<lambda>i. seq_for
                    (MDinvN_body cfg (int z1) (int z2) idx1 idx2 jc1 jc2 v1 v2 D Wn rs cs alpha i)
                    [0..<n2])
                 [0..<m] (buf0, [])
                = Inr (buf, replicate (if deepchecks cfg then lower_pairs rs cs m n2 else 0)
                              lower_triangle_warning)
           \<and> length buf = nat (Wm * Wn)
           \<and> (\<forall>t<nat (Wm * Wn). buf ! t = buf0 ! t
                + (\<Sum>i\<in>{0..<m}. \<Sum>j\<in>{0..<n2}. if nat ((int i + rs) * Wn + (int j + cs)) = t
                      then alpha * (\<Sum>c<nc. entry_of irw1 jc1 v1 i c / D ! c * entry_of irw2 jc2 v2 j c)
                      else 0))"
proof -
  let ?L = "nat (Wm * Wn)"
  let ?w = lower_triangle_warning
  let ?G = "\<lambda>i t. \<Sum>j\<in>{0..<n2}. if nat ((int i + rs) * Wn + (int j + cs)) = t
                      then alpha * (\<Sum>c<nc. entry_of irw1 jc1 v1 i c / D ! c * entry_of irw2 jc2 v2 j c)
                      else 0"
  let ?J = "\<lambda>i (s :: real list \<times> string list).
              snd s = replicate (if deepchecks cfg then lower_pairs rs cs i n2 else 0) ?w"
  let ?f = "\<lambda>i. seq_for
                    (MDinvN_body cfg (int z1) (int z2) idx1 idx2 jc1 jc2 v1 v2 D Wn rs cs alpha i)
                    [0..<n2]"
  have "\<exists>s. seq_for ?f [0..<m] (buf0, []) = Inr s \<and> length (fst s) = ?L \<and> ?J m s
          \<and> (\<forall>t<?L. fst s ! t = fst (buf0, [] :: string list) ! t + (\<Sum>i\<in>{0..<m}. ?G i t))"
  proof (rule seq_for_accum [where J = ?J and buf_of = fst and G = ?G and f = ?f])
    fix i and s :: "real list \<times> string list"
    assume i: "i < m" and l: "length (fst s) = ?L" and J: "?J i s"
    obtain b o' where s: "s = (b, o')" by (cases s)
    have i1: "i < n1" using i m by simp
    have lb: "length b = ?L" using l s by simp
    obtain b' where b': "?f i (b, o')
        = Inr (b', o' @ replicate
                 (if deepchecks cfg
                  then (\<Sum>j\<in>{0..<n2}. if lower_pair rs cs i j then 1 else 0) else 0) ?w)"
      "length b' = ?L" "\<forall>t<?L. b' ! t = b ! t + ?G i t"
      using MDinvN_row_ok [OF r1 r2 v D W(1-4) lb i1 safe [OF i], of alpha o'] by blast
    have J': "?J (Suc i) (b', o' @ replicate
                 (if deepchecks cfg
                  then (\<Sum>j\<in>{0..<n2}. if lower_pair rs cs i j then 1 else 0) else 0) ?w)"
      using J s by (simp add: lower_pairs_def replicate_add)
    show "\<exists>s'. ?f i s = Inr s' \<and> length (fst s') = ?L \<and> ?J (Suc i) s'
            \<and> (\<forall>t<?L. fst s' ! t = fst s ! t + ?G i t)"
      unfolding s b'(1) using b'(2,3) J' by simp
  qed (use W in \<open>simp_all add: lower_pairs_def\<close>)
  then show ?thesis by auto
qed

lemma MDinvN_loop_fail:
  assumes r1: "rows_indexed irw1 jc1 idx1 n1 z1 nc" and r2: "rows_indexed irw2 jc2 idx2 n2 z2 nc2"
    and v: "length v1 = z1" "length v2 = z2"
    and D: "length D = nc" "\<forall>d\<in>set D. d \<noteq> 0"
    and W: "0 \<le> rs" "rs + int n1 \<le> Wm" "0 \<le> cs" "cs + int n2 \<le> Wn"
      "length buf0 = nat (Wm * Wn)"
    and cfg: "deepchecks cfg" "\<not> ndebug cfg"
    and low: "i < n1" "j < n2" "lower_pair rs cs i j"
  shows "seq_for (\<lambda>i. seq_for
                    (MDinvN_body cfg (int z1) (int z2) idx1 idx2 jc1 jc2 v1 v2 D Wn rs cs alpha i)
                    [0..<n2])
                 [0..<n1] (buf0, []) = Inl AssertionFailed"
proof -
  let ?bad = "\<lambda>i. i < n1 \<and> lower_pair rs cs i 0"
  let ?k = "LEAST i. ?bad i"
  have n2: "0 < n2" using low(2) by simp
  have "?bad i" using low by (simp add: lower_pair_def)
  then have k: "?bad ?k" by (rule LeastI)
  have least: "\<not> ?bad i'" if "i' < ?k" for i'
    using that by (rule not_less_Least)
  have kn: "?k < n1" "lower_pair rs cs ?k 0" using k by simp_all
  have safe: "\<not> (deepchecks cfg \<and> \<not> ndebug cfg \<and> 0 < n2 \<and> lower_pair rs cs i' 0)"
    if "i' < ?k" for i'
    using least [OF that] that kn(1) by simp
  obtain buf out where pre: "seq_for (\<lambda>i. seq_for
                    (MDinvN_body cfg (int z1) (int z2) idx1 idx2 jc1 jc2 v1 v2 D Wn rs cs alpha i)
                    [0..<n2])
                 [0..<?k] (buf0, []) = Inr (buf, out)" and lb: "length buf = nat (Wm * Wn)"
    using MDinvN_rows_prefix [OF r1 r2 v D W _ safe, of ?k alpha] kn(1) by auto
  have bad: "seq_for (MDinvN_body cfg (int z1) (int z2) idx1 idx2 jc1 jc2 v1 v2 D Wn rs cs alpha ?k)
           [0..<n2] (buf, out) = Inl AssertionFailed"
    by (rule MDinvN_row_fail [OF r1 r2 v D W(1-4) lb kn(1)]) (use cfg n2 kn(2) in simp)
  show ?thesis
    by (rule seq_for_fail [where k = ?k, OF _ kn(1) pre bad]) simp
qed


lemma row_starts_frame:
  assumes ready: "kernel_ready h M"
  shows "\<exists>rsi h'. (case row_starts_host M of
                      None \<Rightarrow> allocAndBuildRowStarts cfg h M
                    | Some rsi \<Rightarrow> Inr (rsi, h)) = Inr (rsi, h')
           \<and> (\<forall>p<brk h. ibuf h' p = ibuf h p) \<and> dbuf h' = dbuf h
           \<and> brk h \<le> brk h' \<and> allocators h' = allocators h
           \<and> rsi_idx_start rsi < brk h'
           \<and> (0 < nrows M \<longrightarrow>
                ibuf h' (rsi_idx_start rsi)
                  = map (\<lambda>i. rows_below (ibuf h (iRow M)) (int i)) [0..<Suc (nat (nrows M))])"
proof -
  let ?irw = "ibuf h (iRow M)"
  let ?offs = "map (\<lambda>i. rows_below ?irw (int i)) [0..<Suc (nat (nrows M))]"
  have ok: "host_triplets_ok h M" and srt: "row_major_sorted h M"
    and sync: "ibuf h (iRow_host M) = ?irw"
    and al: "''HOST'' \<in> set (allocators h)" "mem_space M \<in> set (allocators h)"
    and dims: "0 \<le> nrows M" and cache: "row_starts_cached h M"
    using ready by (simp_all add: kernel_ready_def)
  show ?thesis
  proof (cases "row_starts_host M")
    case (Some rsi)
    then have "ibuf h (rsi_idx_start rsi) = ?offs" "rsi_idx_start rsi < brk h"
      using cache sync by (simp_all add: row_starts_cached_def)
    then show ?thesis using Some by (simp del: upt_Suc)
  next
    case None
    show ?thesis
    proof (cases "0 < nrows M")
      case True
      show ?thesis
        using None allocAndBuildRowStarts_result [OF ok srt True al, of cfg] sync True
        by (simp del: upt_Suc)
    next
      case False
      then show ?thesis
        using None al dims
        by (simp add: allocAndBuildRowStarts_def new_RowStartsInfo_def getAllocator_def
            allocate_int_def delete_RowStartsInfo_def deallocate_int_def Let_def)
    qed
  qed
qed

lemma kernel_ready_frame:
  assumes ready: "kernel_ready h M"
    and fr: "\<forall>p<brk h. ibuf h' p = ibuf h p" "dbuf h' = dbuf h" "brk h \<le> brk h'"
      "allocators h' = allocators h"
  shows "kernel_ready h' M"
proof -
  have ptr: "iRow M < brk h" "jCol M < brk h" "iRow_host M < brk h" "jCol_host M < brk h"
    using ready by (simp_all add: kernel_ready_def host_triplets_ok_def)
  have same: "ibuf h' (iRow M) = ibuf h (iRow M)" "ibuf h' (jCol M) = ibuf h (jCol M)"
    "ibuf h' (iRow_host M) = ibuf h (iRow_host M)" "ibuf h' (jCol_host M) = ibuf h (jCol_host M)"
    using ptr fr(1) by simp_all
  have cache: "row_starts_cached h' M"
    using ready fr(1,3) same
    by (auto simp add: kernel_ready_def row_starts_cached_def split: option.splits)
  show ?thesis
    using ready ptr fr(2,3,4) same cache
    by (auto simp add: kernel_ready_def triplets_ok_def host_triplets_ok_def row_major_sorted_def)
qed

lemma kernel_ready_rows_indexed:
  assumes ready: "kernel_ready h M"
  shows "rows_indexed (ibuf h (iRow M)) (ibuf h (jCol M))
           (map (\<lambda>i. rows_below (ibuf h (iRow M)) (int i)) [0..<Suc (nat (nrows M))])
           (nat (nrows M)) (nat (nnz M)) (nat (ncols M))"
  using ready
  by (auto simp add: kernel_ready_def rows_indexed_def triplets_ok_def row_major_sorted_def
      list_all_iff simp del: upt_Suc)


lemma addMDinvN_setup:
  assumes ready1: "kernel_ready h M1" and ready2: "kernel_ready h M2"
    and nc: "ncols M1 = ncols M2"
    and D: "int (length D) = ncols M1"
    and fit: "0 \<le> rds" "rds + nrows M1 \<le> dense_m W" "0 \<le> cds" "cds + nrows M2 \<le> dense_n W"
    and pos: "0 < nrows M1" "0 < nrows M2"
  shows "\<exists>rsi1 rsi2 h2.
           addMDinvNtransToSymDeMatUTri cfg h M1 rds cds alpha D M2 W
           = bindE (seq_for (\<lambda>i. seq_for
                      (MDinvN_body cfg (nnz M1) (nnz M2)
                         (map (\<lambda>i. rows_below (ibuf h (iRow M1)) (int i)) [0..<Suc (nat (nrows M1))])
                         (map (\<lambda>i. rows_below (ibuf h (iRow M2)) (int i)) [0..<Suc (nat (nrows M2))])
                         (ibuf h (jCol M1)) (ibuf h (jCol M2)) (dbuf h (vals M1)) (dbuf h (vals M2))
                         D (dense_n W) rds cds alpha i)
                      [0..<nat (nrows M2)])
                    [0..<nat (nrows M1)] (local_buffer W, []))
               (\<lambda>(buf, out). Inr (h2, M1\<lparr>row_starts_host := Some rsi1\<rparr>,
                                     M2\<lparr>row_starts_host := Some rsi2\<rparr>,
                                     W\<lparr>local_buffer := buf\<rparr>, out))"
proof -
  obtain rsi1 h1 where rs1: "(case row_starts_host M1 of
                      None \<Rightarrow> allocAndBuildRowStarts cfg h M1
                    | Some rsi \<Rightarrow> Inr (rsi, h)) = Inr (rsi1, h1)"
    and fr1: "\<forall>p<brk h. ibuf h1 p = ibuf h p" "dbuf h1 = dbuf h" "brk h \<le> brk h1"
      "allocators h1 = allocators h" "rsi_idx_start rsi1 < brk h1"
    and ix1: "ibuf h1 (rsi_idx_start rsi1)
                = map (\<lambda>i. rows_below (ibuf h (iRow M1)) (int i)) [0..<Suc (nat (nrows M1))]"
    using row_starts_frame [OF ready1, of cfg] pos(1) by blast
  have ready2': "kernel_ready h1 M2" by (rule kernel_ready_frame [OF ready2 fr1(1-4)])
  obtain rsi2 h2 where rs2: "(case row_starts_host M2 of
                      None \<Rightarrow> allocAndBuildRowStarts cfg h1 M2
                    | Some rsi \<Rightarrow> Inr (rsi, h1)) = Inr (rsi2, h2)"
    and fr2: "\<forall>p<brk h1. ibuf h2 p = ibuf h1 p" "dbuf h2 = dbuf h1"
    and ix2: "ibuf h2 (rsi_idx_start rsi2)
                = map (\<lambda>i. rows_below (ibuf h1 (iRow M2)) (int i)) [0..<Suc (nat (nrows M2))]"
    using row_starts_frame [OF ready2', of cfg] pos(2) by blast
  have ptr: "iRow M1 < brk h" "jCol M1 < brk h" "iRow M2 < brk h" "jCol M2 < brk h"
    using ready1 ready2 by (simp_all add: kernel_ready_def)
  have a1: "ibuf h2 (rsi_idx_start rsi1)
                = map (\<lambda>i. rows_below (ibuf h (iRow M1)) (int i)) [0..<Suc (nat (nrows M1))]"
    using fr2(1) fr1(5) ix1 by simp
  have a2: "ibuf h2 (rsi_idx_start rsi2)
                = map (\<lambda>i. rows_below (ibuf h (iRow M2)) (int i)) [0..<Suc (nat (nrows M2))]"
    using ix2 fr1(1) ptr by simp
  have a3: "ibuf h2 (jCol M1) = ibuf h (jCol M1)" "ibuf h2 (jCol M2) = ibuf h (jCol M2)"
    using fr1(1,3) fr2(1) ptr by simp_all
  have a4: "dbuf h2 = dbuf h" using fr1(2) fr2(2) by simp
  have "addMDinvNtransToSymDeMatUTri cfg h M1 rds cds alpha D M2 W
           = bindE (seq_for (\<lambda>i. seq_for
                      (MDinvN_body cfg (nnz M1) (nnz M2)
                         (map (\<lambda>i. rows_below (ibuf h (iRow M1)) (int i)) [0..<Suc (nat (nrows M1))])
                         (map (\<lambda>i. rows_below (ibuf h (iRow M2)) (int i)) [0..<Suc (nat (nrows M2))])
                         (ibuf h (jCol M1)) (ibuf h (jCol M2)) (dbuf h (vals M1)) (dbuf h (vals M2))
                         D (dense_n W) rds cds alpha i)
                      [0..<nat (nrows M2)])
                    [0..<nat (nrows M1)] (local_buffer W, []))
               (\<lambda>(buf, out). Inr (h2, M1\<lparr>row_starts_host := Some rsi1\<rparr>,
                                     M2\<lparr>row_starts_host := Some rsi2\<rparr>,
                                     W\<lparr>local_buffer := buf\<rparr>, out))"
    using nc D fit
    by (simp add: addMDinvNtransToSymDeMatUTri_def Let_def rs1 rs2 RAJA_forall_def a1 a2 a3 a4
        del: upt_Suc)
  then show ?thesis by (intro exI)
qed


lemma addMDinvN_aborts:
  assumes ready1: "kernel_ready h M1" and ready2: "kernel_ready h M2"
    and nc: "ncols M1 = ncols M2"
    and D: "int (length D) = ncols M1" "\<forall>d\<in>set D. d \<noteq> 0"
    and W: "dense_ok W"
    and fit: "0 \<le> rds" "rds + nrows M1 \<le> dense_m W" "0 \<le> cds" "cds + nrows M2 \<le> dense_n W"
    and cfg: "deepchecks cfg" "\<not> ndebug cfg"
    and low: "i0 < nat (nrows M1)" "j0 < nat (nrows M2)" "lower_pair rds cds i0 j0"
  shows "addMDinvNtransToSymDeMatUTri cfg h M1 rds cds alpha D M2 W = Inl AssertionFailed"
proof -
  have pos: "0 < nrows M1" "0 < nrows M2" using low by simp_all
  have nz: "nnz M1 = int (nat (nnz M1))" "nnz M2 = int (nat (nnz M2))"
    using ready1 ready2 by (simp_all add: kernel_ready_def host_triplets_ok_def)
  have v: "length (dbuf h (vals M1)) = nat (nnz M1)" "length (dbuf h (vals M2)) = nat (nnz M2)"
    using ready1 ready2 by (simp_all add: kernel_ready_def triplets_ok_def)
  have Dl: "length D = nat (ncols M1)" using D(1) by simp
  have f: "0 \<le> rds" "rds + int (nat (nrows M1)) \<le> dense_m W" "0 \<le> cds"
    "cds + int (nat (nrows M2)) \<le> dense_n W"
    "length (local_buffer W) = nat (dense_m W * dense_n W)"
    using fit pos W by (simp_all add: dense_ok_def)
  obtain rsi1 rsi2 h2 where
    "addMDinvNtransToSymDeMatUTri cfg h M1 rds cds alpha D M2 W
           = bindE (seq_for (\<lambda>i. seq_for
                      (MDinvN_body cfg (nnz M1) (nnz M2)
                         (map (\<lambda>i. rows_below (ibuf h (iRow M1)) (int i)) [0..<Suc (nat (nrows M1))])
                         (map (\<lambda>i. rows_below (ibuf h (iRow M2)) (int i)) [0..<Suc (nat (nrows M2))])
                         (ibuf h (jCol M1)) (ibuf h (jCol M2)) (dbuf h (vals M1)) (dbuf h (vals M2))
                         D (dense_n W) rds cds alpha i)
                      [0..<nat (nrows M2)])
                    [0..<nat (nrows M1)] (local_buffer W, []))
               (\<lambda>(buf, out). Inr (h2, M1\<lparr>row_starts_host := Some rsi1\<rparr>,
                                     M2\<lparr>row_starts_host := Some rsi2\<rparr>,
                                     W\<lparr>local_buffer := buf\<rparr>, out))"
    using addMDinvN_setup [OF ready1 ready2 nc D(1) fit pos] by blast
  moreover have "seq_for (\<lambda>i. seq_for
                      (MDinvN_body cfg (nnz M1) (nnz M2)
                         (map (\<lambda>i. rows_below (ibuf h (iRow M1)) (int i)) [0..<Suc (nat (nrows M1))])
                         (map (\<lambda>i. rows_below (ibuf h (iRow M2)) (int i)) [0..<Suc (nat (nrows M2))])
                         (ibuf h (jCol M1)) (ibuf h (jCol M2)) (dbuf h (vals M1)) (dbuf h (vals M2))
                         D (dense_n W) rds cds alpha i)
                      [0..<nat (nrows M2)])
                    [0..<nat (nrows M1)] (local_buffer W, []) = Inl AssertionFailed"
    by (subst nz(1), subst nz(2))
       (rule MDinvN_loop_fail [OF kernel_ready_rows_indexed [OF ready1]
          kernel_ready_rows_indexed [OF ready2] v Dl D(2) f cfg low])
  ultimately show ?thesis by simp
qed

lemma dense_at_block_eq:
  fixes p q Wn rs cs :: int
  assumes "0 \<le> q" "q < Wn" "j < n2" "0 \<le> rs" "0 \<le> cs" "cs + int n2 \<le> Wn" "0 \<le> p"
  shows "(nat ((int i + rs) * Wn + (int j + cs)) = nat (p * Wn + q))
         = (int i + rs = p \<and> int j + cs = q)"
proof -
  have a: "0 \<le> (int i + rs) * Wn + (int j + cs)" using assms by simp
  have b: "0 \<le> p * Wn + q" using assms by simp
  have "(nat ((int i + rs) * Wn + (int j + cs)) = nat (p * Wn + q))
        = ((int i + rs) * Wn + (int j + cs) = p * Wn + q)"
    using a b by auto
  also have "\<dots> = (int i + rs = p \<and> int j + cs = q)"
    by (rule flat_inj) (use assms in simp_all)
  finally show ?thesis .
qed

lemma addMDinvN_completes:
  assumes ready1: "kernel_ready h M1" and ready2: "kernel_ready h M2"
    and nc: "ncols M1 = ncols M2"
    and D: "int (length D) = ncols M1" "\<forall>d\<in>set D. d \<noteq> 0"
    and W: "dense_ok W"
    and fit: "0 \<le> rds" "rds + nrows M1 \<le> dense_m W" "0 \<le> cds" "cds + nrows M2 \<le> dense_n W"
    and pos: "0 < nrows M1" "0 < nrows M2"
    and cfg: "ndebug cfg \<or> \<not> deepchecks cfg"
  shows "\<exists>h' M1' M2' W' out.
           addMDinvNtransToSymDeMatUTri cfg h M1 rds cds alpha D M2 W = Inr (h', M1', M2', W', out)
           \<and> out = replicate (if deepchecks cfg
                               then lower_pairs rds cds (nat (nrows M1)) (nat (nrows M2)) else 0)
                      lower_triangle_warning
           \<and> dense_m W' = dense_m W \<and> dense_n W' = dense_n W \<and> dense_ok W'
           \<and> (\<forall>p q. 0 \<le> p \<and> p < dense_m W \<and> 0 \<le> q \<and> q < dense_n W \<longrightarrow>
                 dense_at W' p q = dense_at W p q
                   + (if rds \<le> p \<and> p < rds + nrows M1 \<and> cds \<le> q \<and> q < cds + nrows M2
                      then alpha * weighted_dot h M1 M2 D (nat (p - rds)) (nat (q - cds)) else 0))"
proof -
  let ?n1 = "nat (nrows M1)" and ?n2 = "nat (nrows M2)"
  let ?Wm = "dense_m W" and ?Wn = "dense_n W"
  let ?L = "nat (?Wm * ?Wn)"
  let ?S = "\<lambda>i j. \<Sum>c<nat (ncols M1).
              entry_of (ibuf h (iRow M1)) (ibuf h (jCol M1)) (dbuf h (vals M1)) i c / D ! c
              * entry_of (ibuf h (iRow M2)) (ibuf h (jCol M2)) (dbuf h (vals M2)) j c"
  have nz: "nnz M1 = int (nat (nnz M1))" "nnz M2 = int (nat (nnz M2))"
    using ready1 ready2 by (simp_all add: kernel_ready_def host_triplets_ok_def)
  have v: "length (dbuf h (vals M1)) = nat (nnz M1)" "length (dbuf h (vals M2)) = nat (nnz M2)"
    using ready1 ready2 by (simp_all add: kernel_ready_def triplets_ok_def)
  have Dl: "length D = nat (ncols M1)" using D(1) by simp
  have ints: "int ?n1 = nrows M1" "int ?n2 = nrows M2" using pos by simp_all
  have f: "0 \<le> rds" "rds + int ?n1 \<le> ?Wm" "0 \<le> cds" "cds + int ?n2 \<le> ?Wn"
    "length (local_buffer W) = ?L"
    using fit pos W by (simp_all add: dense_ok_def)
  have safe: "\<not> (deepchecks cfg \<and> \<not> ndebug cfg \<and> 0 < ?n2 \<and> lower_pair rds cds i 0)" for i
    using cfg by auto
  obtain rsi1 rsi2 h2 where su:
    "addMDinvNtransToSymDeMatUTri cfg h M1 rds cds alpha D M2 W
           = bindE (seq_for (\<lambda>i. seq_for
                      (MDinvN_body cfg (nnz M1) (nnz M2)
                         (map (\<lambda>i. rows_below (ibuf h (iRow M1)) (int i)) [0..<Suc ?n1])
                         (map (\<lambda>i. rows_below (ibuf h (iRow M2)) (int i)) [0..<Suc ?n2])
                         (ibuf h (jCol M1)) (ibuf h (jCol M2)) (dbuf h (vals M1)) (dbuf h (vals M2))
                         D ?Wn rds cds alpha i)
                      [0..<?n2])
                    [0..<?n1] (local_buffer W, []))
               (\<lambda>(buf, out). Inr (h2, M1\<lparr>row_starts_host := Some rsi1\<rparr>,
                                     M2\<lparr>row_starts_host := Some rsi2\<rparr>,
                                     W\<lparr>local_buffer := buf\<rparr>, out))"
    using addMDinvN_setup [OF ready1 ready2 nc D(1) fit pos] by blast
  obtain buf where loop: "seq_for (\<lambda>i. seq_for
                      (MDinvN_body cfg (nnz M1) (nnz M2)
                         (map (\<lambda>i. rows_below (ibuf h (iRow M1)) (int i)) [0..<Suc ?n1])
                         (map (\<lambda>i. rows_below (ibuf h (iRow M2)) (int i)) [0..<Suc ?n2])
                         (ibuf h (jCol M1)) (ibuf h (jCol M2)) (dbuf h (vals M1)) (dbuf h (vals M2))
                         D ?Wn rds cds alpha i)
                      [0..<?n2])
                    [0..<?n1] (local_buffer W, [])
          = Inr (buf, replicate (if deepchecks cfg then lower_pairs rds cds ?n1 ?n2 else 0)
                        lower_triangle_warning)"
    and lb: "length buf = ?L"
    and ent: "\<forall>t<?L. buf ! t = local_buffer W ! t
                + (\<Sum>i\<in>{0..<?n1}. \<Sum>j\<in>{0..<?n2}.
                     if nat ((int i + rds) * ?Wn + (int j + cds)) = t then alpha * ?S i j else 0)"
    using MDinvN_rows_prefix [OF kernel_ready_rows_indexed [OF ready1]
          kernel_ready_rows_indexed [OF ready2] v Dl D(2) f order_refl safe, where alpha = alpha]
    unfolding nz [symmetric] by blast
  let ?W' = "W\<lparr>local_buffer := buf\<rparr>"
  have res: "addMDinvNtransToSymDeMatUTri cfg h M1 rds cds alpha D M2 W
        = Inr (h2, M1\<lparr>row_starts_host := Some rsi1\<rparr>, M2\<lparr>row_starts_host := Some rsi2\<rparr>, ?W',
               replicate (if deepchecks cfg then lower_pairs rds cds ?n1 ?n2 else 0)
                 lower_triangle_warning)"
    unfolding su loop by simp
  have at: "dense_at ?W' p q = dense_at W p q
                   + (if rds \<le> p \<and> p < rds + nrows M1 \<and> cds \<le> q \<and> q < cds + nrows M2
                      then alpha * weighted_dot h M1 M2 D (nat (p - rds)) (nat (q - cds)) else 0)"
    if pq: "0 \<le> p" "p < ?Wm" "0 \<le> q" "q < ?Wn" for p q
  proof -
    let ?t = "nat (p * ?Wn + q)"
    have t: "?t < ?L" using flat_bounds [OF pq] by simp
    have inj: "(nat ((int i + rds) * ?Wn + (int j + cds)) = ?t) = (int i + rds = p \<and> int j + cds = q)"
      if "i < ?n1" "j < ?n2" for i j
      by (rule dense_at_block_eq [where ?n2.0 = ?n2]) (use that pq f in simp_all)
    have "(\<Sum>i\<in>{0..<?n1}. \<Sum>j\<in>{0..<?n2}.
             if nat ((int i + rds) * ?Wn + (int j + cds)) = ?t then alpha * ?S i j else 0)
          = (if rds \<le> p \<and> p < rds + int ?n1 \<and> cds \<le> q \<and> q < cds + int ?n2
             then alpha * ?S (nat (p - rds)) (nat (q - cds)) else 0)"
      by (rule full_block_pick [where F = "\<lambda>i j. alpha * ?S i j"]) (rule inj)
    then show ?thesis
      using ent t by (simp add: dense_at_def weighted_dot_def entry_def ints)
  qed
  have "dense_ok ?W'" using W lb by (simp add: dense_ok_def)
  then show ?thesis using res at by auto
qed


lemma lower_pairs_pos:
  assumes "i0 < m1" "j0 < m2" "lower_pair rs cs i0 j0"
  shows "0 < lower_pairs rs cs m1 m2"
proof -
  let ?f = "\<lambda>i j. if lower_pair rs cs i j then 1 else 0 :: nat"
  have "?f i0 j0 \<le> (\<Sum>j\<in>{0..<m2}. ?f i0 j)"
    by (rule member_le_sum) (use assms in simp_all)
  also have "\<dots> \<le> (\<Sum>i\<in>{0..<m1}. \<Sum>j\<in>{0..<m2}. ?f i j)"
    by (rule member_le_sum [where f = "\<lambda>i. \<Sum>j\<in>{0..<m2}. ?f i j"]) (use assms in simp_all)
  finally show ?thesis using assms(3) by (simp add: lower_pairs_def)
qed

text \<open>
  C3. With deep checks compiled in and a destination pair
  \<open>(i + row_dest_start, j + col_dest_start)\<close> strictly below the diagonal, what the call
  does depends on whether assertions are compiled in. With \<^verbatim>\<open>NDEBUG\<close> the call
  completes, prints the warning once for every pair below the diagonal (so at least
  once), and every entry of the destination block, below the diagonal or not, grows by
  \<open>alpha\<close> times the entry of \<open>M1 \<cdot> diag(D)\<^sup>-\<^sup>1 \<cdot> M2\<^sup>T\<close>; the rest of \<open>W\<close> keeps its value.
  Without \<^verbatim>\<open>NDEBUG\<close> the \<^verbatim>\<open>assert\<close> that follows the warning fails and the call aborts.
\<close>

theorem addMDinvNtrans_lower_triangle:
  assumes ready: "kernel_ready h M1" "kernel_ready h M2"
    and nc: "ncols M1 = ncols M2"
    and D: "int (length D) = ncols M1" "\<forall>d\<in>set D. d \<noteq> 0"
    and W: "dense_ok W"
    and fit: "0 \<le> rds" "rds + nrows M1 \<le> dense_m W" "0 \<le> cds" "cds + nrows M2 \<le> dense_n W"
    and deep: "deepchecks cfg"
    and low: "i0 < nat (nrows M1)" "j0 < nat (nrows M2)" "lower_pair rds cds i0 j0"
  shows "(ndebug cfg \<longrightarrow>
           (\<exists>h' M1' M2' W' out.
              addMDinvNtransToSymDeMatUTri cfg h M1 rds cds alpha D M2 W = Inr (h', M1', M2', W', out)
              \<and> out = replicate (lower_pairs rds cds (nat (nrows M1)) (nat (nrows M2)))
                         lower_triangle_warning
              \<and> out \<noteq> [] \<and> dense_ok W'
              \<and> (\<forall>p q. 0 \<le> p \<and> p < dense_m W \<and> 0 \<le> q \<and> q < dense_n W \<longrightarrow>
                    dense_at W' p q = dense_at W p q
                      + (if rds \<le> p \<and> p < rds + nrows M1 \<and> cds \<le> q \<and> q < cds + nrows M2
                         then alpha * weighted_dot h M1 M2 D (nat (p - rds)) (nat (q - cds))
                         else 0))))
       \<and> (\<not> ndebug cfg \<longrightarrow>
            addMDinvNtransToSymDeMatUTri cfg h M1 rds cds alpha D M2 W = Inl AssertionFailed)"
proof (intro conjI impI)
  assume nd: "ndebug cfg"
  have pos: "0 < nrows M1" "0 < nrows M2" using low by simp_all
  have cfg: "ndebug cfg \<or> \<not> deepchecks cfg" using nd by simp
  have ne: "replicate (lower_pairs rds cds (nat (nrows M1)) (nat (nrows M2)))
              lower_triangle_warning \<noteq> []"
    using lower_pairs_pos [OF low] by simp
  show "\<exists>h' M1' M2' W' out.
          addMDinvNtransToSymDeMatUTri cfg h M1 rds cds alpha D M2 W = Inr (h', M1', M2', W', out)
          \<and> out = replicate (lower_pairs rds cds (nat (nrows M1)) (nat (nrows M2)))
                     lower_triangle_warning
          \<and> out \<noteq> [] \<and> dense_ok W'
          \<and> (\<forall>p q. 0 \<le> p \<and> p < dense_m W \<and> 0 \<le> q \<and> q < dense_n W \<longrightarrow>
                dense_at W' p q = dense_at W p q
                  + (if rds \<le> p \<and> p < rds + nrows M1 \<and> cds \<le> q \<and> q < cds + nrows M2
                     then alpha * weighted_dot h M1 M2 D (nat (p - rds)) (nat (q - cds))
                     else 0))"
    using addMDinvN_completes [OF ready nc D W fit pos cfg, where alpha = alpha] deep ne
    by (simp only: if_True) blast
next
  assume "\<not> ndebug cfg"
  then show "addMDinvNtransToSymDeMatUTri cfg h M1 rds cds alpha D M2 W = Inl AssertionFailed"
    by (rule addMDinvN_aborts [OF ready nc D W fit deep _ low])
qed

theorem addMDinvNtrans_lower_triangle_witness:
  "kernel_ready (heap_row 3) A11 \<and> dense_ok W22 \<and> deepchecks checked_release_build
   \<and> ndebug checked_release_build \<and> lower_pair 1 0 0 0
   \<and> (\<exists>h' M1' M2' W'.
        addMDinvNtransToSymDeMatUTri checked_release_build (heap_row 3) A11 1 0 1 [2] A11 W22
          = Inr (h', M1', M2', W', [lower_triangle_warning])
        \<and> dense_at W' 1 0 = 9 / 2 \<and> dense_at W' 0 0 = 0 \<and> dense_at W' 1 1 = 0)"
proof -
  have W: "dense_ok W22" by (simp add: dense_ok_def W22_def)
  have nc: "ncols A11 = ncols A11" by simp
  have D: "int (length [2 :: real]) = ncols A11" "\<forall>d\<in>set [2 :: real]. d \<noteq> 0"
    by (simp_all add: A11_def)
  have fit: "(0::int) \<le> 1" "1 + nrows A11 \<le> dense_m W22" "(0::int) \<le> 0"
    "0 + nrows A11 \<le> dense_n W22"
    by (simp_all add: A11_def W22_def)
  have deep: "deepchecks checked_release_build" and nd: "ndebug checked_release_build"
    by (simp_all add: checked_release_build_def)
  have low: "0 < nat (nrows A11)" "0 < nat (nrows A11)" "lower_pair 1 0 0 0"
    by (simp_all add: A11_def lower_pair_def)
  have lp: "lower_pairs 1 0 (nat (nrows A11)) (nat (nrows A11)) = 1"
    by (simp add: A11_def lower_pairs_def lower_pair_def)
  obtain h' M1' M2' W' out where
    r: "addMDinvNtransToSymDeMatUTri checked_release_build (heap_row 3) A11 1 0 1 [2] A11 W22
          = Inr (h', M1', M2', W', out)"
    and o: "out = replicate (lower_pairs 1 0 (nat (nrows A11)) (nat (nrows A11)))
                    lower_triangle_warning"
    and e: "\<forall>p q. 0 \<le> p \<and> p < dense_m W22 \<and> 0 \<le> q \<and> q < dense_n W22 \<longrightarrow>
                 dense_at W' p q = dense_at W22 p q
                   + (if 1 \<le> p \<and> p < 1 + nrows A11 \<and> 0 \<le> q \<and> q < 0 + nrows A11
                      then 1 * weighted_dot (heap_row 3) A11 A11 [2] (nat (p - 1)) (nat (q - 0))
                      else 0)"
    using addMDinvNtrans_lower_triangle [OF kernel_ready_row [of 3] kernel_ready_row [of 3]
        nc D W fit deep low, where alpha = 1, THEN conjunct1, rule_format, OF nd] by blast
  have out: "out = [lower_triangle_warning]" unfolding o lp by simp
  have "dense_at W' 1 0 = 9 / 2" "dense_at W' 0 0 = 0" "dense_at W' 1 1 = 0"
    using e [rule_format, of 1 0] e [rule_format, of 0 0] e [rule_format, of 1 1]
      weighted_dot_row [of 3 2]
    by (simp_all add: A11_def W22_def dense_at_def)
  then show ?thesis using kernel_ready_row [of 3] W deep nd low(3) r out by blast
qed

text \<open>
  C3, as the specification words it, fails in a build with deep checks and assertions:
  a \<open>1 \<times> 1\<close> block placed at row 1, column 0 of a \<open>2 \<times> 2\<close> matrix does not complete.
\<close>

theorem addMDinvNtrans_lower_triangle_counterexample:
  "addMDinvNtransToSymDeMatUTri debug_build (heap_row 3) A11 1 0 1 [2] A11 W22
     = Inl AssertionFailed"
proof -
  have W: "dense_ok W22" by (simp add: dense_ok_def W22_def)
  have D: "int (length [2 :: real]) = ncols A11" "\<forall>d\<in>set [2 :: real]. d \<noteq> 0"
    by (simp_all add: A11_def)
  have fit: "(0::int) \<le> 1" "1 + nrows A11 \<le> dense_m W22" "(0::int) \<le> 0"
    "0 + nrows A11 \<le> dense_n W22"
    by (simp_all add: A11_def W22_def)
  have cfg: "deepchecks debug_build" "\<not> ndebug debug_build"
    by (simp_all add: debug_build_def)
  have low: "0 < nat (nrows A11)" "0 < nat (nrows A11)" "lower_pair 1 0 0 0"
    by (simp_all add: A11_def lower_pair_def)
  show ?thesis
    by (rule addMDinvN_aborts [OF kernel_ready_row [of 3] kernel_ready_row [of 3] refl D W fit
          cfg low])
qed

end
